theory Spec2Isabelle
  imports Main "HOL-Library.Multiset" "HOL-Library.Char_ord" "HOL-Library.List_Lexorder"
begin

section \<open>Locations and their derived keys\<close>

text \<open>
  A \<open>Location\<close> is a Go string, that is a sequence of bytes. The failures of the
  program are values: \<open>log.Fatal\<close> after a failed \<open>url.QueryUnescape\<close>, the run-time
  panic of a slice expression that is out of range, and \<open>log.Fatal\<close> of the final
  length check of \<open>shuffle\<close>.
\<close>

type_synonym Location = string

datatype error = Fatal_unescape | Panic_slice_bounds | Fatal_length

subsection \<open>\<open>url.QueryUnescape\<close> of the Go library\<close>

definition byte :: "char \<Rightarrow> nat" where
  "byte c = of_char c"

definition ishex :: "char \<Rightarrow> bool" where
  "ishex c \<longleftrightarrow>
     (byte CHR ''0'' \<le> byte c \<and> byte c \<le> byte CHR ''9'') \<or>
     (byte CHR ''a'' \<le> byte c \<and> byte c \<le> byte CHR ''f'') \<or>
     (byte CHR ''A'' \<le> byte c \<and> byte c \<le> byte CHR ''F'')"

definition unhex :: "char \<Rightarrow> nat" where
  "unhex c =
     (if byte CHR ''0'' \<le> byte c \<and> byte c \<le> byte CHR ''9'' then byte c - byte CHR ''0''
      else if byte CHR ''a'' \<le> byte c \<and> byte c \<le> byte CHR ''f'' then byte c - byte CHR ''a'' + 10
      else if byte CHR ''A'' \<le> byte c \<and> byte c \<le> byte CHR ''F'' then byte c - byte CHR ''A'' + 10
      else 0)"

text \<open>
  \<open>unescape s encodeQueryComponent\<close>: a \<open>%\<close> must be followed by two hexadecimal
  digits and stands for the byte they spell, a \<open>+\<close> stands for a space, every other
  byte stands for itself. A \<open>%\<close> without its two digits is an \<open>EscapeError\<close>, wherever
  it is in the string.
\<close>

fun QueryUnescape :: "string \<Rightarrow> string option" where
  "QueryUnescape [] = Some []"
| "QueryUnescape (c # cs) =
     (if c = CHR ''%'' then
        (case cs of
           h1 # h2 # rest \<Rightarrow>
             (if ishex h1 \<and> ishex h2 then
                map_option ((#) (char_of (16 * unhex h1 + unhex h2))) (QueryUnescape rest)
              else None)
         | _ \<Rightarrow> None)
      else if c = CHR ''+'' then map_option ((#) CHR '' '') (QueryUnescape cs)
      else map_option ((#) c) (QueryUnescape cs))"

subsection \<open>\<open>filepath.Split\<close> of the Go library, with the separator \<open>/\<close>\<close>

text \<open>
  The index moves from the last byte to the left while the byte is not a separator;
  the directory is the path up to and with that separator, the file is the rest.
\<close>

definition filepath_Split :: "string \<Rightarrow> string \<times> string" where
  "filepath_Split path =
     (rev (dropWhile (\<lambda>c. c \<noteq> CHR ''/'') (rev path)),
      rev (takeWhile (\<lambda>c. c \<noteq> CHR ''/'') (rev path)))"

subsection \<open>\<open>Location.Text\<close> and \<open>Location.Split\<close>\<close>

text \<open>
  Both programs have these two methods, word for word. \<open>Text\<close> compares
  \<open>escapedStr[:7]\<close> with \<open>file://\<close>; the slice expression panics when the string has
  fewer than seven bytes.
\<close>

definition Text :: "Location \<Rightarrow> error + string" where
  "Text l =
     (case QueryUnescape l of
        None \<Rightarrow> Inl Fatal_unescape
      | Some escapedStr \<Rightarrow>
          if length escapedStr < 7 then Inl Panic_slice_bounds
          else if take 7 escapedStr = ''file://'' then Inr (drop 7 escapedStr)
          else Inr escapedStr)"

definition Split :: "Location \<Rightarrow> error + (string \<times> string)" where
  "Split l = (case Text l of Inl e \<Rightarrow> Inl e | Inr text \<Rightarrow> Inr (filepath_Split text))"

text \<open>
  The two keys of a location, for the statements below: what \<open>Split\<close> returns for it.
  A location on which \<open>Split\<close> fails has none, and never gets as far as a group; the
  empty string stands in for them.
\<close>

definition GroupKey :: "Location \<Rightarrow> string" where
  "GroupKey l = (case Split l of Inr (dir, file) \<Rightarrow> dir | Inl e \<Rightarrow> [])"

definition LeafName :: "Location \<Rightarrow> string" where
  "LeafName l = (case Split l of Inr (dir, file) \<Rightarrow> file | Inl e \<Rightarrow> [])"

section \<open>The library functions that reorder\<close>

subsection \<open>The random source and \<open>Rand.Shuffle\<close>\<close>

text \<open>
  The generator \<open>rnd\<close> is the sequence of the values it is going to return: a draw
  below \<open>n\<close> takes the next value, reduced into the range \<open>0..<n\<close>, and leaves the
  rest. Every statement below holds for every such sequence. \<open>Shuffle n swap\<close> runs
  \<open>i\<close> from \<open>n - 1\<close> down to \<open>1\<close>, draws \<open>j\<close> below \<open>i + 1\<close> and swaps the
  elements at \<open>i\<close> and \<open>j\<close>.
\<close>

type_synonym rand = "nat list"

definition Intn :: "rand \<Rightarrow> nat \<Rightarrow> nat \<times> rand" where
  "Intn g n = (case g of [] \<Rightarrow> (0, []) | r # g' \<Rightarrow> (r mod n, g'))"

definition swap :: "nat \<Rightarrow> nat \<Rightarrow> 'a list \<Rightarrow> 'a list" where
  "swap i j xs = xs[i := xs ! j, j := xs ! i]"

primrec Shuffle_from :: "nat \<Rightarrow> rand \<Rightarrow> 'a list \<Rightarrow> 'a list \<times> rand" where
  "Shuffle_from 0 g xs = (xs, g)"
| "Shuffle_from (Suc i) g xs =
     (case Intn g (Suc i + 1) of (j, g') \<Rightarrow> Shuffle_from i g' (swap (Suc i) j xs))"

definition Shuffle :: "rand \<Rightarrow> 'a list \<Rightarrow> 'a list \<times> rand" where
  "Shuffle g xs = Shuffle_from (length xs - 1) g xs"

subsection \<open>\<open>strings.Compare\<close>, \<open>sort.Strings\<close> and \<open>sort.Slice\<close>\<close>

text \<open>
  Go compares strings byte by byte, a proper prefix first: the order of
  \<^typ>\<open>char list\<close> here. \<open>sort.Strings\<close> sorts by that order; equal strings are the
  same value, so its result is the one sorted arrangement of its argument, whatever the
  algorithm.
\<close>

definition strings_Compare :: "string \<Rightarrow> string \<Rightarrow> int" where
  "strings_Compare a b = (if a = b then 0 else if a < b then - 1 else 1)"

definition sort_Strings :: "string list \<Rightarrow> string list" where
  "sort_Strings x = sort x"

text \<open>
  \<open>sort.Slice\<close> promises a sorted rearrangement and no stability; which of the
  rearrangements it returns depends on the algorithm of the library version. The
  algorithm is therefore a parameter \<open>srt\<close> of the model, a function of the comparison
  and of the slice's contents, and \<open>sorts_by\<close> is the promise of the library.
\<close>

type_synonym sorter = "(Location \<Rightarrow> Location \<Rightarrow> bool) \<Rightarrow> Location list \<Rightarrow> Location list"

definition sorts_by :: "sorter \<Rightarrow> (Location \<Rightarrow> Location \<Rightarrow> bool) \<Rightarrow> bool" where
  "sorts_by srt lt \<longleftrightarrow>
     (\<forall>xs. mset (srt lt xs) = mset xs \<and> sorted_wrt (\<lambda>a b. \<not> lt b a) (srt lt xs))"

text \<open>
  The library's insertion sort, which is all \<open>sort.Slice\<close> runs on a short slice:
  element \<open>i\<close> moves to the left while it is less than its left neighbour. The sorted
  prefix is kept reversed, its last element first.
\<close>

fun sift :: "('a \<Rightarrow> 'a \<Rightarrow> bool) \<Rightarrow> 'a \<Rightarrow> 'a list \<Rightarrow> 'a list" where
  "sift lt x [] = [x]"
| "sift lt x (y # ys) = (if lt x y then y # sift lt x ys else x # y # ys)"

definition insertionSort :: "('a \<Rightarrow> 'a \<Rightarrow> bool) \<Rightarrow> 'a list \<Rightarrow> 'a list" where
  "insertionSort lt xs = rev (foldl (\<lambda>acc x. sift lt x acc) [] xs)"

section \<open>The reorder engine\<close>

text \<open>
  The comparison handed to \<open>sort.Slice\<close>. It splits both locations again; every
  location it meets is in a group, and the first loop has split it without failure.
\<close>

definition less_file :: "Location \<Rightarrow> Location \<Rightarrow> bool" where
  "less_file a b \<longleftrightarrow> strings_Compare (LeafName a) (LeafName b) = - 1"

text \<open>Reading a key that a Go map does not hold gives the nil slice.\<close>

definition lookup :: "(string \<rightharpoonup> Location list) \<Rightarrow> string \<Rightarrow> Location list" where
  "lookup all dir = (case all dir of None \<Rightarrow> [] | Some thisDir \<Rightarrow> thisDir)"

text \<open>The first loop of \<open>shuffle\<close>: \<open>all\<close> maps a directory to its contents, \<open>dirs\<close>
  lists the directories in the order of their first appearance.\<close>

fun group_loop :: "Location list \<Rightarrow> (string \<rightharpoonup> Location list) \<times> string list \<Rightarrow>
    error + ((string \<rightharpoonup> Location list) \<times> string list)" where
  "group_loop [] (all, dirs) = Inr (all, dirs)"
| "group_loop (l # ls) (all, dirs) =
     (case Split l of
        Inl e \<Rightarrow> Inl e
      | Inr (dir, file) \<Rightarrow>
          group_loop ls (all(dir \<mapsto> lookup all dir @ [l]),
                         if all dir = None then dirs @ [dir] else dirs))"

text \<open>The loops over \<open>dirs\<close> that shuffle or sort each directory in place.\<close>

fun shuffle_in_dirs :: "string list \<Rightarrow> (string \<rightharpoonup> Location list) \<Rightarrow> rand \<Rightarrow>
    (string \<rightharpoonup> Location list) \<times> rand" where
  "shuffle_in_dirs [] all g = (all, g)"
| "shuffle_in_dirs (dir # ds) all g =
     (case all dir of
        None \<Rightarrow> shuffle_in_dirs ds all g
      | Some thisDir \<Rightarrow>
          (case Shuffle g thisDir of (thisDir', g') \<Rightarrow>
             shuffle_in_dirs ds (all(dir \<mapsto> thisDir')) g'))"

fun sort_in_dirs :: "sorter \<Rightarrow> string list \<Rightarrow> (string \<rightharpoonup> Location list) \<Rightarrow>
    (string \<rightharpoonup> Location list)" where
  "sort_in_dirs srt [] all = all"
| "sort_in_dirs srt (dir # ds) all =
     (case all dir of
        None \<Rightarrow> sort_in_dirs srt ds all
      | Some thisDir \<Rightarrow> sort_in_dirs srt ds (all(dir \<mapsto> srt less_file thisDir)))"

text \<open>The part of \<open>shuffle\<close> after the first loop, up to the flattened \<open>result\<close>.\<close>

definition reorder :: "sorter \<Rightarrow> rand \<Rightarrow> (string \<rightharpoonup> Location list) \<Rightarrow> string list \<Rightarrow>
    bool \<Rightarrow> bool \<Rightarrow> Location list \<times> rand" where
  "reorder srt rnd all dirs shuffleDirs shuffleInDir =
     (case (if shuffleDirs then Shuffle rnd dirs else (sort_Strings dirs, rnd)) of
        (dirs1, rnd1) \<Rightarrow>
          (case (if shuffleInDir then shuffle_in_dirs dirs1 all rnd1
                 else (sort_in_dirs srt dirs1 all, rnd1)) of
             (all2, rnd2) \<Rightarrow> (concat (map (lookup all2) dirs1), rnd2)))"

text \<open>\<open>shuffle\<close> of the current program: it returns the reordered copy.\<close>

definition shuffle :: "sorter \<Rightarrow> rand \<Rightarrow> Location list \<Rightarrow> bool \<Rightarrow> bool \<Rightarrow>
    error + (Location list \<times> rand)" where
  "shuffle srt rnd locations shuffleDirs shuffleInDir =
     (case group_loop locations (Map.empty, []) of
        Inl e \<Rightarrow> Inl e
      | Inr (all, dirs) \<Rightarrow>
          (case reorder srt rnd all dirs shuffleDirs shuffleInDir of
             (result, rnd') \<Rightarrow>
               if length result \<noteq> length locations then Inl Fatal_length
               else Inr (result, rnd')))"

text \<open>
  \<open>shuffle\<close> of \<open>rhythmbox.go\<close>: its first loop appends the directory of every
  location to \<open>dirs\<close>, and it ends by copying \<open>result\<close> over the caller's slice, as
  many elements as the shorter of the two has. Its value is the contents of the
  caller's slice afterwards.
\<close>

fun group_loop_inplace :: "Location list \<Rightarrow> (string \<rightharpoonup> Location list) \<times> string list \<Rightarrow>
    error + ((string \<rightharpoonup> Location list) \<times> string list)" where
  "group_loop_inplace [] (all, dirs) = Inr (all, dirs)"
| "group_loop_inplace (l # ls) (all, dirs) =
     (case Split l of
        Inl e \<Rightarrow> Inl e
      | Inr (dir, file) \<Rightarrow>
          group_loop_inplace ls (all(dir \<mapsto> lookup all dir @ [l]), dirs @ [dir]))"

definition copy :: "'a list \<Rightarrow> 'a list \<Rightarrow> 'a list" where
  "copy dst src = take (length dst) src @ drop (length src) dst"

definition shuffle_inplace :: "sorter \<Rightarrow> rand \<Rightarrow> Location list \<Rightarrow> bool \<Rightarrow> bool \<Rightarrow>
    error + (Location list \<times> rand)" where
  "shuffle_inplace srt rnd locations shuffleDirs shuffleInDir =
     (case group_loop_inplace locations (Map.empty, []) of
        Inl e \<Rightarrow> Inl e
      | Inr (all, dirs) \<Rightarrow>
          (case reorder srt rnd all dirs shuffleDirs shuffleInDir of
             (result, rnd') \<Rightarrow> Inr (copy locations result, rnd')))"

text \<open>The maximal runs of neighbours that agree on a key, in their order.\<close>

fun runs :: "('a \<Rightarrow> 'k) \<Rightarrow> 'a list \<Rightarrow> 'a list list" where
  "runs k [] = []"
| "runs k (x # xs) =
     (case runs k xs of
        [] \<Rightarrow> [[x]]
      | r # rs \<Rightarrow> if k x = k (hd r) then (x # r) # rs else [x] # r # rs)"


text \<open>The locations that \<open>Text\<close> and \<open>Split\<close> accept.\<close>

definition well_formed :: "Location \<Rightarrow> bool" where
  "well_formed l = (case QueryUnescape l of None \<Rightarrow> False | Some s \<Rightarrow> 7 \<le> length s)"

section \<open>The derived keys in the words of the specification\<close>

text \<open>
  Percent-decoding proper: a \<open>%\<close> with its two hexadecimal digits is the byte they
  spell and every other byte, the \<open>+\<close> too, is itself; a \<open>%\<close> without its digits is
  malformed.
\<close>

fun percent_decode :: "string \<Rightarrow> string option" where
  "percent_decode [] = Some []"
| "percent_decode (c # cs) =
     (if c = CHR ''%'' then
        (case cs of
           h1 # h2 # rest \<Rightarrow>
             (if ishex h1 \<and> ishex h2 then
                map_option ((#) (char_of (16 * unhex h1 + unhex h2))) (percent_decode rest)
              else None)
         | _ \<Rightarrow> None)
      else map_option ((#) c) (percent_decode cs))"

definition strip_scheme :: "string \<Rightarrow> string" where
  "strip_scheme s = (if take 7 s = ''file://'' then drop 7 s else s)"

definition spec_derived_keys :: "string \<Rightarrow> (string \<times> string) option" where
  "spec_derived_keys l = map_option (\<lambda>s. filepath_Split (strip_scheme s)) (percent_decode l)"

definition plus_to_space :: "char \<Rightarrow> char" where
  "plus_to_space c = (if c = CHR ''+'' then CHR '' '' else c)"

section \<open>The engine on a store\<close>

text \<open>
  Whether \<open>shuffle\<close> touches the slice of its caller is a matter of which arrays its
  slices share, so here the slices are what they are in Go: a slice is a window
  (\<open>off\<close>, \<open>len\<close>, \<open>cap\<close>) on an array of the store, the store is the list of the arrays
  allocated so far, and an allocation appends to it. Locations and directories are both
  strings, one store holds both kinds of array. The nil slice has no capacity.
\<close>

record slice =
  ptr :: nat
  off :: nat
  len :: nat
  cap :: nat

type_synonym heap = "string list list"

definition nil :: slice where
  "nil = \<lparr>ptr = 0, off = 0, len = 0, cap = 0\<rparr>"

definition read :: "heap \<Rightarrow> slice \<Rightarrow> string list" where
  "read h s = take (len s) (drop (off s) (h ! ptr s))"

definition index :: "heap \<Rightarrow> slice \<Rightarrow> nat \<Rightarrow> string" where
  "index h s i = h ! ptr s ! (off s + i)"

definition store :: "heap \<Rightarrow> slice \<Rightarrow> nat \<Rightarrow> string \<Rightarrow> heap" where
  "store h s i v = h[ptr s := (h ! ptr s)[off s + i := v]]"

text \<open>Storing \<open>xs\<close> at the indices \<open>from\<close>, \<open>from + 1\<close>, ... of a slice.\<close>

fun store_from :: "heap \<Rightarrow> slice \<Rightarrow> nat \<Rightarrow> string list \<Rightarrow> heap" where
  "store_from h s i [] = h"
| "store_from h s i (v # vs) = store_from (store h s i v) s (Suc i) vs"

text \<open>
  \<open>append(s, xs...)\<close>: within the capacity the elements go into the array of \<open>s\<close>;
  beyond it a new array is allocated, with the old contents, the new elements and
  zero values up to the new capacity. How much the runtime lets the capacity grow is
  the parameter \<open>grow\<close>, of the old capacity and the length that is needed; the new
  capacity is never less than that length.
\<close>

definition append_st :: "(nat \<Rightarrow> nat \<Rightarrow> nat) \<Rightarrow> heap \<Rightarrow> slice \<Rightarrow> string list \<Rightarrow> slice \<times> heap" where
  "append_st grow h s xs =
     (let n = len s + length xs in
      if n \<le> cap s then (s\<lparr>len := n\<rparr>, store_from h s (len s) xs)
      else
        (let newcap = max n (grow (cap s) n) in
         (\<lparr>ptr = length h, off = 0, len = n, cap = newcap\<rparr>,
          h @ [read h s @ xs @ replicate (newcap - n) []])))"

definition swap_st :: "heap \<Rightarrow> slice \<Rightarrow> nat \<Rightarrow> nat \<Rightarrow> heap" where
  "swap_st h s i j = store (store h s i (index h s j)) s j (index h s i)"

primrec Shuffle_from_st :: "nat \<Rightarrow> slice \<Rightarrow> rand \<Rightarrow> heap \<Rightarrow> heap \<times> rand" where
  "Shuffle_from_st 0 s g h = (h, g)"
| "Shuffle_from_st (Suc i) s g h =
     (case Intn g (Suc i + 1) of (j, g') \<Rightarrow> Shuffle_from_st i s g' (swap_st h s (Suc i) j))"

definition Shuffle_st :: "rand \<Rightarrow> heap \<Rightarrow> slice \<Rightarrow> heap \<times> rand" where
  "Shuffle_st g h s = Shuffle_from_st (len s - 1) s g h"

text \<open>The sorting functions leave their slice with its contents sorted, in its array.\<close>

definition sort_Strings_st :: "heap \<Rightarrow> slice \<Rightarrow> heap" where
  "sort_Strings_st h s = store_from h s 0 (take (len s) (sort (read h s)))"

definition sort_Slice_st :: "sorter \<Rightarrow> heap \<Rightarrow> slice \<Rightarrow> heap" where
  "sort_Slice_st srt h s = store_from h s 0 (take (len s) (srt less_file (read h s)))"

definition lookup_st :: "(string \<rightharpoonup> slice) \<Rightarrow> string \<Rightarrow> slice" where
  "lookup_st all dir = (case all dir of None \<Rightarrow> nil | Some thisDir \<Rightarrow> thisDir)"

text \<open>
  The loops of \<open>shuffle\<close>. A \<open>range\<close> loop runs through the indices of its slice and
  reads each element from the store as it is then.
\<close>

fun group_loop_st :: "(nat \<Rightarrow> nat \<Rightarrow> nat) \<Rightarrow> slice \<Rightarrow> nat list \<Rightarrow>
    heap \<times> (string \<rightharpoonup> slice) \<times> slice \<Rightarrow> error + (heap \<times> (string \<rightharpoonup> slice) \<times> slice)" where
  "group_loop_st grow locations [] (h, all, dirs) = Inr (h, all, dirs)"
| "group_loop_st grow locations (i # is) (h, all, dirs) =
     (case Split (index h locations i) of
        Inl e \<Rightarrow> Inl e
      | Inr (dir, file) \<Rightarrow>
          (case (if all dir = None then append_st grow h dirs [dir] else (dirs, h)) of
             (dirs', h1) \<Rightarrow>
               (case append_st grow h1 (lookup_st all dir) [index h locations i] of
                  (thisDir, h2) \<Rightarrow>
                    group_loop_st grow locations is (h2, all(dir \<mapsto> thisDir), dirs'))))"

fun shuffle_in_dirs_st :: "slice \<Rightarrow> nat list \<Rightarrow> (string \<rightharpoonup> slice) \<Rightarrow> heap \<times> rand \<Rightarrow>
    heap \<times> rand" where
  "shuffle_in_dirs_st dirs [] all (h, g) = (h, g)"
| "shuffle_in_dirs_st dirs (i # is) all (h, g) =
     shuffle_in_dirs_st dirs is all (Shuffle_st g h (lookup_st all (index h dirs i)))"

fun sort_in_dirs_st :: "sorter \<Rightarrow> slice \<Rightarrow> nat list \<Rightarrow> (string \<rightharpoonup> slice) \<Rightarrow> heap \<Rightarrow> heap" where
  "sort_in_dirs_st srt dirs [] all h = h"
| "sort_in_dirs_st srt dirs (i # is) all h =
     sort_in_dirs_st srt dirs is all (sort_Slice_st srt h (lookup_st all (index h dirs i)))"

fun flatten_st :: "(nat \<Rightarrow> nat \<Rightarrow> nat) \<Rightarrow> slice \<Rightarrow> nat list \<Rightarrow> (string \<rightharpoonup> slice) \<Rightarrow>
    slice \<times> heap \<Rightarrow> slice \<times> heap" where
  "flatten_st grow dirs [] all (result, h) = (result, h)"
| "flatten_st grow dirs (i # is) all (result, h) =
     flatten_st grow dirs is all
       (append_st grow h result (read h (lookup_st all (index h dirs i))))"

text \<open>\<open>shuffle\<close> of the current program, on the store: it returns the slice \<open>result\<close>.\<close>

definition shuffle_st :: "sorter \<Rightarrow> (nat \<Rightarrow> nat \<Rightarrow> nat) \<Rightarrow> rand \<Rightarrow> heap \<Rightarrow> slice \<Rightarrow> bool \<Rightarrow> bool \<Rightarrow>
    error + (slice \<times> heap \<times> rand)" where
  "shuffle_st srt grow rnd h locations shuffleDirs shuffleInDir =
     (case group_loop_st grow locations [0..<len locations] (h, Map.empty, nil) of
        Inl e \<Rightarrow> Inl e
      | Inr (h1, all, dirs) \<Rightarrow>
          (case (if shuffleDirs then Shuffle_st rnd h1 dirs
                 else (sort_Strings_st h1 dirs, rnd)) of
             (h2, rnd1) \<Rightarrow>
               (case (if shuffleInDir then shuffle_in_dirs_st dirs [0..<len dirs] all (h2, rnd1)
                      else (sort_in_dirs_st srt dirs [0..<len dirs] all h2, rnd1)) of
                  (h3, rnd2) \<Rightarrow>
                    (case flatten_st grow dirs [0..<len dirs] all (nil, h3) of
                       (result, h4) \<Rightarrow>
                         if len result \<noteq> len locations then Inl Fatal_length
                         else Inr (result, h4, rnd2)))))"

text \<open>A slice that lies within an array of the store; the window of a nil slice is empty.\<close>

definition valid :: "heap \<Rightarrow> slice \<Rightarrow> bool" where
  "valid h s \<longleftrightarrow>
     len s \<le> cap s \<and> (cap s = 0 \<or> ptr s < length h \<and> off s + cap s \<le> length (h ! ptr s))"

text \<open>A slice of this call: it has no capacity, or its array is not one of the first \<open>n\<close>.\<close>

definition fresh :: "nat \<Rightarrow> slice \<Rightarrow> bool" where
  "fresh n s \<longleftrightarrow> len s \<le> cap s \<and> (cap s = 0 \<or> n \<le> ptr s)"

text \<open>
  Two slices are apart when they cannot share an element: one has no capacity, or
  their arrays differ. \<open>contents\<close> reads the map of the groups off the store; the state
  of the loops is in order when every slice is valid and the slices are apart from
  each other.
\<close>

definition apart :: "slice \<Rightarrow> slice \<Rightarrow> bool" where
  "apart s t \<longleftrightarrow> cap s = 0 \<or> cap t = 0 \<or> ptr s \<noteq> ptr t"

definition contents :: "heap \<Rightarrow> (string \<rightharpoonup> slice) \<Rightarrow> (string \<rightharpoonup> Location list)" where
  "contents h all = (\<lambda>d. map_option (read h) (all d))"

definition in_order :: "heap \<Rightarrow> (string \<rightharpoonup> slice) \<Rightarrow> slice \<Rightarrow> bool" where
  "in_order h all dirs \<longleftrightarrow>
     valid h dirs \<and>
     (\<forall>d s. all d = Some s \<longrightarrow> valid h s \<and> apart s dirs) \<and>
     (\<forall>d d' s s'. all d = Some s \<longrightarrow> all d' = Some s' \<longrightarrow> d \<noteq> d' \<longrightarrow> apart s s')"


section \<open>Properties of the derived keys and of the first loop\<close>

lemma Split_Inr_keys: "Split l = Inr (d, f) \<Longrightarrow> GroupKey l = d \<and> LeafName l = f"
  by (simp add: GroupKey_def LeafName_def)

lemma Split_Inr_iff: "(\<exists>k. Split l = Inr k) \<longleftrightarrow> (\<exists>t. Text l = Inr t)"
  by (auto simp: Split_def split: sum.splits)

lemma group_loop_Inr_split:
  "group_loop ls st = Inr st' \<Longrightarrow> \<forall>l\<in>set ls. \<exists>k. Split l = Inr k"
proof (induction ls arbitrary: st)
  case Nil
  then show ?case by simp
next
  case (Cons l ls)
  obtain all dirs where st: "st = (all, dirs)" by (cases st)
  from Cons.prems obtain dir leaf where s: "Split l = Inr (dir, leaf)"
    by (auto simp: st split: sum.splits)
  with Cons.prems have "group_loop ls (all(dir \<mapsto> lookup all dir @ [l]),
      if all dir = None then dirs @ [dir] else dirs) = Inr st'"
    by (simp add: st)
  from Cons.IH [OF this] s show ?case by simp
qed

lemma group_loop_Inl_split:
  "group_loop ls st = Inl e \<Longrightarrow> \<exists>l\<in>set ls. Split l = Inl e"
proof (induction ls arbitrary: st)
  case Nil
  then show ?case by (cases st) simp
next
  case (Cons l ls)
  obtain all dirs where st: "st = (all, dirs)" by (cases st)
  show ?case
  proof (cases "Split l")
    case (Inl e')
    with Cons.prems show ?thesis by (simp add: st)
  next
    case (Inr k)
    obtain dir leaf where k: "k = (dir, leaf)" by (cases k)
    from Cons.prems Inr have "group_loop ls (all(dir \<mapsto> lookup all dir @ [l]),
      if all dir = None then dirs @ [dir] else dirs) = Inl e"
      by (simp add: st k)
    from Cons.IH [OF this] show ?thesis by auto
  qed
qed

lemma group_loop_all:
  "group_loop ls (all0, dirs0) = Inr (all, dirs) \<Longrightarrow>
   all d = (if filter (\<lambda>l. GroupKey l = d) ls = [] then all0 d
            else Some (lookup all0 d @ filter (\<lambda>l. GroupKey l = d) ls))"
proof (induction ls arbitrary: all0 dirs0)
  case Nil
  then show ?case by simp
next
  case (Cons l ls)
  from Cons.prems obtain dir leaf where s: "Split l = Inr (dir, leaf)"
    by (auto split: sum.splits)
  then have k: "GroupKey l = dir" by (simp add: Split_Inr_keys)
  let ?all1 = "all0(dir \<mapsto> lookup all0 dir @ [l])"
  from Cons.prems s have "group_loop ls (?all1,
      if all0 dir = None then dirs0 @ [dir] else dirs0) = Inr (all, dirs)"
    by simp
  from Cons.IH [OF this]
  have ih: "all d = (if filter (\<lambda>l. GroupKey l = d) ls = [] then ?all1 d
            else Some (lookup ?all1 d @ filter (\<lambda>l. GroupKey l = d) ls))" .
  show ?case
  proof (cases "d = dir")
    case True
    with ih k show ?thesis by (simp add: lookup_def)
  next
    case False
    with ih k show ?thesis by (simp add: lookup_def)
  qed
qed

lemma group_loop_dirs:
  "group_loop ls (all0, dirs0) = Inr (all, dirs) \<Longrightarrow> dom all0 = set dirs0 \<Longrightarrow>
   distinct dirs0 \<Longrightarrow> distinct dirs \<and> dom all = set dirs"
proof (induction ls arbitrary: all0 dirs0)
  case Nil
  then show ?case by simp
next
  case (Cons l ls)
  from Cons.prems(1) obtain dir leaf where s: "Split l = Inr (dir, leaf)"
    by (auto split: sum.splits)
  let ?all1 = "all0(dir \<mapsto> lookup all0 dir @ [l])"
  let ?dirs1 = "if all0 dir = None then dirs0 @ [dir] else dirs0"
  from Cons.prems(1) s have g: "group_loop ls (?all1, ?dirs1) = Inr (all, dirs)"
    by simp
  have d: "dom ?all1 = set ?dirs1" using Cons.prems(2) by auto
  have "distinct ?dirs1" using Cons.prems(2,3) by auto
  from Cons.IH [OF g d this] show ?case .
qed

lemma group_loop_total:
  "\<forall>l\<in>set ls. \<exists>k. Split l = Inr k \<Longrightarrow> \<exists>st'. group_loop ls st = Inr st'"
proof (induction ls arbitrary: st)
  case Nil
  then show ?case by (cases st) simp
next
  case (Cons l ls)
  obtain all dirs where st: "st = (all, dirs)" by (cases st)
  from Cons.prems obtain dir leaf where s: "Split l = Inr (dir, leaf)" by auto
  from Cons.prems have "\<forall>l\<in>set ls. \<exists>k. Split l = Inr k" by simp
  from Cons.IH [OF this] s show ?case by (simp add: st)
qed

text \<open>The groups that the first loop builds from the empty map.\<close>
lemma group_loop_empty:
  assumes "group_loop ls (Map.empty, []) = Inr (all, dirs)"
  shows "distinct dirs" and "set dirs = GroupKey ` set ls"
    and "\<And>d. lookup all d = filter (\<lambda>l. GroupKey l = d) ls"
    and "\<And>d. d \<in> set dirs \<Longrightarrow> all d = Some (filter (\<lambda>l. GroupKey l = d) ls)"
proof -
  from group_loop_dirs [OF assms] show "distinct dirs" by simp
  have a: "all d = (if filter (\<lambda>l. GroupKey l = d) ls = [] then None
            else Some (filter (\<lambda>l. GroupKey l = d) ls))" for d
    using group_loop_all [OF assms, of d] by (simp add: lookup_def)
  from group_loop_dirs [OF assms] have "set dirs = dom all" by simp
  also have "\<dots> = GroupKey ` set ls"
    by (auto simp: dom_def a filter_empty_conv)
  finally show sd: "set dirs = GroupKey ` set ls" .
  show "lookup all d = filter (\<lambda>l. GroupKey l = d) ls" for d
    by (simp add: lookup_def a)
  show "all d = Some (filter (\<lambda>l. GroupKey l = d) ls)" if "d \<in> set dirs" for d
    using that sd by (auto simp: a filter_empty_conv)
qed


section \<open>Shuffling and sorting rearrange\<close>

lemma Intn_less: "Intn g n = (j, g') \<Longrightarrow> 0 < n \<Longrightarrow> j < n"
  by (auto simp: Intn_def split: list.splits)

lemma length_swap: "length (swap i j xs) = length xs"
  by (simp add: swap_def)

lemma mset_swap_in_range:
  "i < length xs \<Longrightarrow> j < length xs \<Longrightarrow> mset (swap i j xs) = mset xs"
  by (simp add: swap_def mset_swap)

lemma mset_Shuffle_from:
  "i < length xs \<Longrightarrow> Shuffle_from i g xs = (ys, g') \<Longrightarrow> mset ys = mset xs"
proof (induction i arbitrary: g xs)
  case 0
  then show ?case by simp
next
  case (Suc i)
  obtain j g1 where d: "Intn g (Suc i + 1) = (j, g1)" by (cases "Intn g (Suc i + 1)")
  then have "j < Suc i + 1" by (rule Intn_less) simp
  with Suc.prems(1) have j: "j < length xs" by simp
  from Suc.prems(2) d have "Shuffle_from i g1 (swap (Suc i) j xs) = (ys, g')" by simp
  moreover have "i < length (swap (Suc i) j xs)" using Suc.prems(1) by (simp add: length_swap)
  ultimately have "mset ys = mset (swap (Suc i) j xs)" by (rule Suc.IH [rotated])
  with Suc.prems(1) j show ?case by (simp add: mset_swap_in_range)
qed

lemma mset_Shuffle: "Shuffle g xs = (ys, g') \<Longrightarrow> mset ys = mset xs"
proof (cases xs)
  case Nil
  assume "Shuffle g xs = (ys, g')"
  with Nil show ?thesis by (simp add: Shuffle_def)
next
  case (Cons x xs')
  assume "Shuffle g xs = (ys, g')"
  then have "Shuffle_from (length xs - 1) g xs = (ys, g')" by (simp add: Shuffle_def)
  moreover have "length xs - 1 < length xs" using Cons by simp
  ultimately show ?thesis by (rule mset_Shuffle_from [rotated])
qed

lemma shuffle_in_dirs_mset:
  "shuffle_in_dirs ds all g = (all', g') \<Longrightarrow> map_option mset (all' d) = map_option mset (all d)"
proof (induction ds arbitrary: all g)
  case Nil
  then show ?case by simp
next
  case (Cons dir ds)
  show ?case
  proof (cases "all dir")
    case None
    with Cons.prems have "shuffle_in_dirs ds all g = (all', g')" by simp
    then show ?thesis by (rule Cons.IH)
  next
    case (Some thisDir)
    obtain thisDir' g1 where s: "Shuffle g thisDir = (thisDir', g1)"
      by (cases "Shuffle g thisDir")
    with Cons.prems Some have "shuffle_in_dirs ds (all(dir \<mapsto> thisDir')) g1 = (all', g')"
      by simp
    then have "map_option mset (all' d) = map_option mset ((all(dir \<mapsto> thisDir')) d)"
      by (rule Cons.IH)
    with Some mset_Shuffle [OF s] show ?thesis by (cases "d = dir") simp_all
  qed
qed

lemma sort_in_dirs_mset:
  assumes "sorts_by srt less_file"
  shows "map_option mset (sort_in_dirs srt ds all d) = map_option mset (all d)"
proof (induction ds arbitrary: all)
  case Nil
  then show ?case by simp
next
  case (Cons dir ds)
  show ?case
  proof (cases "all dir")
    case None
    with Cons.IH [of all] show ?thesis by simp
  next
    case (Some thisDir)
    let ?all1 = "all(dir \<mapsto> srt less_file thisDir)"
    from assms have "mset (srt less_file thisDir) = mset thisDir" by (simp add: sorts_by_def)
    with Some have "map_option mset (?all1 d) = map_option mset (all d)"
      by (cases "d = dir") simp_all
    moreover have "map_option mset (sort_in_dirs srt ds ?all1 d) = map_option mset (?all1 d)"
      by (rule Cons.IH)
    moreover have "sort_in_dirs srt (dir # ds) all = sort_in_dirs srt ds ?all1"
      using Some by simp
    ultimately show ?thesis by (simp only:)
  qed
qed

lemma less_file_iff: "less_file a b \<longleftrightarrow> LeafName a < LeafName b"
  by (simp add: less_file_def strings_Compare_def)

lemma sorts_by_sorted:
  "sorts_by srt less_file \<Longrightarrow> sorted (map LeafName (srt less_file xs))"
  by (simp add: sorts_by_def less_file_iff sorted_map not_less)

text \<open>A directory on the list comes out of the sorting loop sorted.\<close>

lemma sort_in_dirs_keeps_sorted:
  assumes "sorts_by srt less_file"
  shows "all d = Some xs \<Longrightarrow> sorted (map LeafName xs) \<Longrightarrow>
    sorted (map LeafName (lookup (sort_in_dirs srt ds all) d))"
proof (induction ds arbitrary: all xs)
  case Nil
  then show ?case by (simp add: lookup_def)
next
  case (Cons dir ds)
  show ?case
  proof (cases "all dir")
    case None
    with Cons.IH [of all xs, OF Cons.prems] show ?thesis by simp
  next
    case (Some thisDir)
    let ?all1 = "all(dir \<mapsto> srt less_file thisDir)"
    have "\<exists>ys. ?all1 d = Some ys \<and> sorted (map LeafName ys)"
      using Cons.prems sorts_by_sorted [OF assms] by (cases "d = dir") simp_all
    then obtain ys where "?all1 d = Some ys" "sorted (map LeafName ys)" by blast
    from Cons.IH [of ?all1 ys, OF this]
    have "sorted (map LeafName (lookup (sort_in_dirs srt ds ?all1) d))" .
    moreover have "sort_in_dirs srt (dir # ds) all = sort_in_dirs srt ds ?all1"
      using Some by simp
    ultimately show ?thesis by (simp only:)
  qed
qed

lemma sort_in_dirs_sorted:
  assumes "sorts_by srt less_file"
  shows "d \<in> set ds \<Longrightarrow> sorted (map LeafName (lookup (sort_in_dirs srt ds all) d))"
proof (induction ds arbitrary: all)
  case Nil
  then show ?case by simp
next
  case (Cons dir ds)
  show ?case
  proof (cases "all dir")
    case None
    show ?thesis
    proof (cases "d = dir")
      case True
      have "map_option mset (sort_in_dirs srt ds all d) = None"
        using sort_in_dirs_mset [OF assms, of ds all d] None True by simp
      then show ?thesis using None by (simp add: lookup_def)
    next
      case False
      with Cons.prems have "d \<in> set ds" by simp
      from Cons.IH [OF this] None show ?thesis by simp
    qed
  next
    case (Some thisDir)
    let ?all1 = "all(dir \<mapsto> srt less_file thisDir)"
    have eq: "sort_in_dirs srt (dir # ds) all = sort_in_dirs srt ds ?all1"
      using Some by simp
    have "sorted (map LeafName (lookup (sort_in_dirs srt ds ?all1) d))"
    proof (cases "d = dir")
      case True
      have "?all1 d = Some (srt less_file thisDir)" using True by simp
      from sort_in_dirs_keeps_sorted [of srt ?all1 d "srt less_file thisDir" ds,
          OF assms this sorts_by_sorted [OF assms]]
      show ?thesis .
    next
      case False
      with Cons.prems have "d \<in> set ds" by simp
      then show ?thesis by (rule Cons.IH)
    qed
    then show ?thesis by (simp only: eq)
  qed
qed

lemma lookup_mset:
  "map_option mset (all' d) = map_option mset (all d) \<Longrightarrow> mset (lookup all' d) = mset (lookup all d)"
  by (cases "all d"; cases "all' d") (simp_all add: lookup_def)


section \<open>Flattening the groups\<close>

lemma mset_concat_filter:
  "distinct ds \<Longrightarrow>
   mset (concat (map (\<lambda>d. filter (\<lambda>l. k l = d) xs) ds)) = filter_mset (\<lambda>l. k l \<in> set ds) (mset xs)"
proof (induction ds)
  case Nil
  then show ?case by simp
next
  case (Cons d ds)
  then have ih: "mset (concat (map (\<lambda>d. filter (\<lambda>l. k l = d) xs) ds)) =
      filter_mset (\<lambda>l. k l \<in> set ds) (mset xs)"
    and nd: "d \<notin> set ds" by simp_all
  have "filter_mset (\<lambda>l. k l \<in> set (d # ds)) (mset xs) =
      filter_mset (\<lambda>l. k l = d) (mset xs) + filter_mset (\<lambda>l. k l \<in> set ds) (mset xs)"
    using nd by (auto simp: multiset_eq_iff)
  with ih show ?case by simp
qed

lemma mset_concat_lookup:
  assumes "mset ds' = mset ds"
    and "\<And>d. mset (lookup all' d) = mset (lookup all d)"
  shows "mset (concat (map (lookup all') ds')) = mset (concat (map (lookup all) ds))"
proof -
  have "mset (concat (map (lookup all') ds')) = sum_list (map (\<lambda>d. mset (lookup all' d)) ds')"
    by (simp add: mset_concat comp_def)
  also have "\<dots> = sum_mset (image_mset (\<lambda>d. mset (lookup all d)) (mset ds'))"
    by (simp add: assms(2) flip: sum_mset_sum_list)
  also have "\<dots> = sum_list (map (\<lambda>d. mset (lookup all d)) ds)"
    by (simp add: assms(1) flip: sum_mset_sum_list)
  also have "\<dots> = mset (concat (map (lookup all) ds))"
    by (simp add: mset_concat comp_def)
  finally show ?thesis .
qed

lemma runs_Nil_iff: "runs k xs = [] \<longleftrightarrow> xs = []"
  by (cases xs) (simp_all split: list.splits)

lemma hd_hd_runs: "xs \<noteq> [] \<Longrightarrow> hd (hd (runs k xs)) = hd xs"
  by (cases xs) (simp_all split: list.splits)

lemma concat_runs: "concat (runs k xs) = xs"
proof (induction xs)
  case Nil
  then show ?case by simp
next
  case (Cons x xs)
  then show ?case by (cases "runs k xs") auto
qed

lemma runs_block:
  "xs \<noteq> [] \<Longrightarrow> \<forall>x\<in>set xs. k x = d \<Longrightarrow> ys = [] \<or> k (hd ys) \<noteq> d \<Longrightarrow>
   runs k (xs @ ys) = xs # runs k ys"
proof (induction xs)
  case Nil
  then show ?case by simp
next
  case (Cons x xs)
  show ?case
  proof (cases xs)
    case Nil
    show ?thesis
    proof (cases "ys = []")
      case True
      with Nil show ?thesis by simp
    next
      case False
      then obtain r rs where r: "runs k ys = r # rs" by (cases "runs k ys") (simp_all add: runs_Nil_iff)
      with hd_hd_runs [OF False, of k] have "hd r = hd ys" by simp
      with Cons.prems False r Nil show ?thesis by simp
    qed
  next
    case (Cons x' xs')
    with Cons.IH Cons.prems have "runs k (xs @ ys) = xs # runs k ys" by simp
    with Cons Cons.prems show ?thesis by simp
  qed
qed

lemma runs_concat_map:
  "distinct ds \<Longrightarrow> \<forall>d\<in>set ds. G d \<noteq> [] \<and> (\<forall>x\<in>set (G d). k x = d) \<Longrightarrow>
   runs k (concat (map G ds)) = map G ds"
proof (induction ds)
  case Nil
  then show ?case by simp
next
  case (Cons d ds)
  then have ih: "runs k (concat (map G ds)) = map G ds" by simp
  have "concat (map G ds) = [] \<or> k (hd (concat (map G ds))) \<noteq> d"
  proof (cases ds)
    case Nil
    then show ?thesis by simp
  next
    case (Cons d' ds')
    with Cons.prems have "G d' \<noteq> []" "k (hd (G d')) = d'" "d' \<noteq> d" by auto
    with Cons show ?thesis by simp
  qed
  with Cons.prems have "runs k (G d @ concat (map G ds)) = G d # runs k (concat (map G ds))"
    by (intro runs_block) simp_all
  with ih show ?case by simp
qed


section \<open>The structure of the result\<close>

lemma reorder_structure:
  assumes srt: "sorts_by srt less_file"
    and r: "reorder srt rnd all dirs shuffleDirs shuffleInDir = (result, rnd')"
  shows "\<exists>dirs1 all2.
    result = concat (map (lookup all2) dirs1) \<and> mset dirs1 = mset dirs \<and>
    (\<forall>d. map_option mset (all2 d) = map_option mset (all d)) \<and>
    (\<not> shuffleDirs \<longrightarrow> dirs1 = sort_Strings dirs) \<and>
    (\<not> shuffleInDir \<longrightarrow> (\<forall>d\<in>set dirs1. sorted (map LeafName (lookup all2 d))))"
proof -
  obtain dirs1 rnd1 where d1:
    "(if shuffleDirs then Shuffle rnd dirs else (sort_Strings dirs, rnd)) = (dirs1, rnd1)"
    by (cases "if shuffleDirs then Shuffle rnd dirs else (sort_Strings dirs, rnd)")
  obtain all2 rnd2 where a2:
    "(if shuffleInDir then shuffle_in_dirs dirs1 all rnd1
      else (sort_in_dirs srt dirs1 all, rnd1)) = (all2, rnd2)"
    by (cases "if shuffleInDir then shuffle_in_dirs dirs1 all rnd1
      else (sort_in_dirs srt dirs1 all, rnd1)")
  from r d1 a2 have res: "result = concat (map (lookup all2) dirs1)"
    by (simp add: reorder_def)
  have m: "mset dirs1 = mset dirs"
    using d1 by (auto simp: sort_Strings_def split: if_splits dest: mset_Shuffle)
  have g: "map_option mset (all2 d) = map_option mset (all d)" for d
  proof (cases shuffleInDir)
    case True
    with a2 have "shuffle_in_dirs dirs1 all rnd1 = (all2, rnd2)" by simp
    then show ?thesis by (rule shuffle_in_dirs_mset)
  next
    case False
    with a2 have "all2 = sort_in_dirs srt dirs1 all" by simp
    then show ?thesis by (simp only: sort_in_dirs_mset [OF srt])
  qed
  have s1: "dirs1 = sort_Strings dirs" if "\<not> shuffleDirs"
    using d1 that by simp
  have s2: "sorted (map LeafName (lookup all2 d))" if "\<not> shuffleInDir" "d \<in> set dirs1" for d
  proof -
    from a2 that(1) have "all2 = sort_in_dirs srt dirs1 all" by simp
    then show ?thesis by (simp only: sort_in_dirs_sorted [OF srt that(2)])
  qed
  from res m g s1 s2 show ?thesis by blast
qed

text \<open>
  What \<open>shuffle\<close> returns is the groups of the input, one after the other: each
  directory of the input once, and under it a rearrangement of the locations of that
  directory.
\<close>

lemma shuffle_structure:
  assumes srt: "sorts_by srt less_file"
    and s: "shuffle srt rnd locations shuffleDirs shuffleInDir = Inr (out, rnd')"
  shows "\<exists>dirs1 G.
    out = concat (map G dirs1) \<and> distinct dirs1 \<and> set dirs1 = GroupKey ` set locations \<and>
    (\<forall>d. mset (G d) = mset (filter (\<lambda>l. GroupKey l = d) locations)) \<and>
    (\<not> shuffleDirs \<longrightarrow> sorted dirs1) \<and>
    (\<not> shuffleInDir \<longrightarrow> (\<forall>d\<in>set dirs1. sorted (map LeafName (G d))))"
proof -
  from s obtain all dirs where g: "group_loop locations (Map.empty, []) = Inr (all, dirs)"
    by (auto simp: shuffle_def split: sum.splits)
  with s obtain result where r: "reorder srt rnd all dirs shuffleDirs shuffleInDir = (result, rnd')"
    and o: "out = result"
    by (auto simp: shuffle_def split: prod.splits if_splits)
  from reorder_structure [OF srt r] obtain dirs1 all2 where
    res: "result = concat (map (lookup all2) dirs1)" and m: "mset dirs1 = mset dirs" and
    p: "\<And>d. map_option mset (all2 d) = map_option mset (all d)" and
    s1: "\<not> shuffleDirs \<longrightarrow> dirs1 = sort_Strings dirs" and
    s2: "\<not> shuffleInDir \<longrightarrow> (\<forall>d\<in>set dirs1. sorted (map LeafName (lookup all2 d)))"
    by blast
  have "distinct dirs1"
    using m group_loop_empty(1) [OF g] by (metis mset_eq_imp_distinct_iff)
  moreover have "set dirs1 = GroupKey ` set locations"
    using m group_loop_empty(2) [OF g] by (metis mset_eq_setD)
  moreover have "mset (lookup all2 d) = mset (filter (\<lambda>l. GroupKey l = d) locations)" for d
  proof -
    have "mset (lookup all2 d) = mset (lookup all d)" by (rule lookup_mset) (rule p)
    then show ?thesis by (simp only: group_loop_empty(3) [OF g])
  qed
  moreover have "\<not> shuffleDirs \<longrightarrow> sorted dirs1"
    using s1 by (simp add: sort_Strings_def)
  ultimately show ?thesis using res o s2 by blast
qed

lemma shuffle_length_check:
  assumes srt: "sorts_by srt less_file"
    and g: "group_loop locations (Map.empty, []) = Inr (all, dirs)"
    and r: "reorder srt rnd all dirs shuffleDirs shuffleInDir = (result, rnd')"
  shows "mset result = mset locations"
proof -
  from reorder_structure [OF srt r] obtain dirs1 all2 where
    res: "result = concat (map (lookup all2) dirs1)" and m: "mset dirs1 = mset dirs" and
    p: "\<And>d. map_option mset (all2 d) = map_option mset (all d)"
    by blast
  have q: "mset (lookup all2 d) = mset (lookup all d)" for d
    by (rule lookup_mset) (rule p)
  have "mset result = mset (concat (map (lookup all) dirs))"
    unfolding res using m q by (rule mset_concat_lookup)
  also have "map (lookup all) dirs = map (\<lambda>d. filter (\<lambda>l. GroupKey l = d) locations) dirs"
    using group_loop_empty(3) [OF g] by simp
  also have "mset (concat \<dots>) = filter_mset (\<lambda>l. GroupKey l \<in> set dirs) (mset locations)"
    using group_loop_empty(1) [OF g] by (rule mset_concat_filter)
  also have "\<dots> = mset locations"
    using group_loop_empty(2) [OF g] by (simp add: filter_mset_eq_conv)
  finally show ?thesis .
qed

lemma shuffle_mset:
  assumes srt: "sorts_by srt less_file"
    and s: "shuffle srt rnd locations shuffleDirs shuffleInDir = Inr (out, rnd')"
  shows "mset out = mset locations"
proof -
  from s obtain all dirs where g: "group_loop locations (Map.empty, []) = Inr (all, dirs)"
    by (auto simp: shuffle_def split: sum.splits)
  with s have r: "reorder srt rnd all dirs shuffleDirs shuffleInDir = (out, rnd')"
    by (auto simp: shuffle_def split: prod.splits if_splits)
  from srt g r show ?thesis by (rule shuffle_length_check)
qed

text \<open>\<open>shuffle\<close> returns exactly when every location has its keys, and its length
  check never fails.\<close>

lemma shuffle_returns:
  assumes srt: "sorts_by srt less_file"
    and ok: "\<forall>l\<in>set locations. \<exists>k. Split l = Inr k"
  shows "\<exists>out rnd'. shuffle srt rnd locations shuffleDirs shuffleInDir = Inr (out, rnd')"
proof -
  from group_loop_total [OF ok] obtain all dirs where
    g: "group_loop locations (Map.empty, []) = Inr (all, dirs)" by fastforce
  obtain result rnd' where r: "reorder srt rnd all dirs shuffleDirs shuffleInDir = (result, rnd')"
    by (cases "reorder srt rnd all dirs shuffleDirs shuffleInDir")
  from shuffle_length_check [OF srt g r] have "length result = length locations"
    by (rule mset_eq_length)
  with g r show ?thesis by (simp add: shuffle_def)
qed

lemma shuffle_Inr_split:
  "shuffle srt rnd locations shuffleDirs shuffleInDir = Inr res \<Longrightarrow>
   \<forall>l\<in>set locations. \<exists>k. Split l = Inr k"
  by (auto simp: shuffle_def split: sum.splits dest!: group_loop_Inr_split)


section \<open>The insertion sort keeps the promise of \<open>sort.Slice\<close>\<close>

lemma mset_sift: "mset (sift lt x acc) = add_mset x (mset acc)"
  by (induction acc) simp_all

lemma set_sift: "set (sift lt x acc) = insert x (set acc)"
  by (induction acc) auto

lemma mset_foldl_sift: "mset (foldl (\<lambda>acc x. sift lt x acc) acc xs) = mset acc + mset xs"
  by (induction xs arbitrary: acc) (simp_all add: mset_sift)

lemma sorted_sift:
  "sorted (map LeafName (rev acc)) \<Longrightarrow> sorted (map LeafName (rev (sift less_file x acc)))"
proof (induction acc)
  case Nil
  then show ?case by simp
next
  case (Cons y ys)
  from Cons.prems have ys: "sorted (map LeafName (rev ys))"
    and le: "\<forall>z\<in>set ys. LeafName z \<le> LeafName y"
    by (auto simp: sorted_append)
  show ?case
  proof (cases "less_file x y")
    case True
    then have "LeafName x < LeafName y" by (simp add: less_file_iff)
    with Cons.IH [OF ys] le True show ?thesis
      by (auto simp: sorted_append set_sift)
  next
    case False
    then have "LeafName y \<le> LeafName x" by (simp add: less_file_iff)
    with Cons.prems le False show ?thesis
      by (auto simp: sorted_append)
  qed
qed

lemma sorted_foldl_sift:
  "sorted (map LeafName (rev acc)) \<Longrightarrow>
   sorted (map LeafName (rev (foldl (\<lambda>acc x. sift less_file x acc) acc xs)))"
  by (induction xs arbitrary: acc) (simp_all add: sorted_sift)

lemma insertionSort_sorts: "sorts_by insertionSort less_file"
proof -
  have "mset (insertionSort less_file xs) = mset xs" for xs
    by (simp add: insertionSort_def mset_foldl_sift)
  moreover have "sorted (map LeafName (insertionSort less_file xs))" for xs
    using sorted_foldl_sift [of "[]" xs] by (simp add: insertionSort_def)
  ultimately show ?thesis
    by (simp add: sorts_by_def less_file_iff sorted_map not_less)
qed

lemma well_formed_iff: "well_formed l \<longleftrightarrow> (\<exists>k. Split l = Inr k)"
  by (auto simp: well_formed_def Split_def Text_def split: option.splits)

lemma all_well_formed_iff:
  "list_all well_formed ls \<longleftrightarrow> (\<forall>l\<in>set ls. \<exists>k. Split l = Inr k)"
  by (simp add: list_all_iff well_formed_iff)

text \<open>The runs of the result are the groups.\<close>

lemma shuffle_runs:
  assumes srt: "sorts_by srt less_file"
    and s: "shuffle srt rnd locations shuffleDirs shuffleInDir = Inr (out, rnd')"
  shows "\<exists>dirs1 G.
    runs GroupKey out = map G dirs1 \<and> map (\<lambda>r. GroupKey (hd r)) (runs GroupKey out) = dirs1 \<and>
    distinct dirs1 \<and> set dirs1 = GroupKey ` set locations \<and>
    (\<forall>d. mset (G d) = mset (filter (\<lambda>l. GroupKey l = d) locations)) \<and>
    (\<not> shuffleDirs \<longrightarrow> sorted dirs1) \<and>
    (\<not> shuffleInDir \<longrightarrow> (\<forall>d\<in>set dirs1. sorted (map LeafName (G d))))"
proof -
  from shuffle_structure [OF srt s] obtain dirs1 G where
    out: "out = concat (map G dirs1)" and dist: "distinct dirs1" and
    sd: "set dirs1 = GroupKey ` set locations" and
    m: "\<And>d. mset (G d) = mset (filter (\<lambda>l. GroupKey l = d) locations)" and
    s1: "\<not> shuffleDirs \<longrightarrow> sorted dirs1" and
    s2: "\<not> shuffleInDir \<longrightarrow> (\<forall>d\<in>set dirs1. sorted (map LeafName (G d)))"
    by blast
  have st: "set (G d) = {l \<in> set locations. GroupKey l = d}" for d
    using mset_eq_setD [OF m [of d]] by auto
  have ne: "G d \<noteq> []" if "d \<in> set dirs1" for d
    using that sd st [of d] by auto
  have key: "\<forall>d\<in>set dirs1. G d \<noteq> [] \<and> (\<forall>x\<in>set (G d). GroupKey x = d)"
    using ne st by auto
  with dist have r: "runs GroupKey out = map G dirs1"
    unfolding out by (rule runs_concat_map)
  have "GroupKey (hd (G d)) = d" if "d \<in> set dirs1" for d
    using key that hd_in_set [of "G d"] by blast
  then have "map (\<lambda>r. GroupKey (hd r)) (runs GroupKey out) = dirs1"
    by (simp add: r comp_def map_idI)
  with r dist sd m s1 s2 show ?thesis by blast
qed


section \<open>The result is a permutation of the input\<close>

text \<open>
  Claim C1. For every input and both flags, what \<open>shuffle\<close> returns is a permutation
  of the input: the same multiset of locations and the same length. It returns for
  every input whose locations are all well formed, whatever \<open>sort.Slice\<close> does within
  its promise and whatever the random source yields.
\<close>

theorem shuffle_permutation:
  assumes "sorts_by srt less_file"
  shows "(\<forall>out rnd'. shuffle srt rnd locations shuffleDirs shuffleInDir = Inr (out, rnd') \<longrightarrow>
            mset out = mset locations \<and> length out = length locations) \<and>
         (list_all well_formed locations \<longrightarrow>
            (\<exists>out rnd'. shuffle srt rnd locations shuffleDirs shuffleInDir = Inr (out, rnd')))"
proof (intro conjI allI impI)
  fix out rnd'
  assume "shuffle srt rnd locations shuffleDirs shuffleInDir = Inr (out, rnd')"
  with assms show m: "mset out = mset locations" by (rule shuffle_mset)
  then show "length out = length locations" by (rule mset_eq_length)
next
  assume "list_all well_formed locations"
  then have "\<forall>l\<in>set locations. \<exists>k. Split l = Inr k" by (simp add: all_well_formed_iff)
  with assms show "\<exists>out rnd'. shuffle srt rnd locations shuffleDirs shuffleInDir = Inr (out, rnd')"
    by (rule shuffle_returns)
qed

theorem shuffle_permutation_witness:
  "\<exists>out rnd'.
     shuffle insertionSort [5, 3, 2, 7, 1]
       [''file:///B/song2'', ''file:///A/song1'', ''file:///B/song1'', ''file:///A/song2'']
       True True = Inr (out, rnd') \<and>
     mset out = mset [''file:///B/song2'', ''file:///A/song1'', ''file:///B/song1'',
       ''file:///A/song2''] \<and>
     length out = 4"
proof -
  have "list_all well_formed
    [''file:///B/song2'', ''file:///A/song1'', ''file:///B/song1'', ''file:///A/song2'']"
    by code_simp
  with shuffle_permutation [OF insertionSort_sorts, of "[5, 3, 2, 7, 1]"
    "[''file:///B/song2'', ''file:///A/song1'', ''file:///B/song1'', ''file:///A/song2'']"
    True True]
  show ?thesis by fastforce
qed

section \<open>Sorted directories and sorted files\<close>

text \<open>
  Claim C3. When \<open>shuffleDirs\<close> is false, the group keys of the runs of the result, in
  the order of the runs, are in non-decreasing byte order.
\<close>

theorem shuffle_dirs_sorted:
  assumes "sorts_by srt less_file"
    and "shuffle srt rnd locations False shuffleInDir = Inr (out, rnd')"
  shows "sorted (map (\<lambda>r. GroupKey (hd r)) (runs GroupKey out))"
  using shuffle_runs [OF assms] by auto

theorem shuffle_dirs_sorted_witness:
  "shuffle insertionSort [5, 3, 2, 7, 1]
     [''file:///B/song2'', ''file:///A/song1'', ''file:///B/song1'', ''file:///A/song2'']
     False True =
     Inr ([''file:///A/song1'', ''file:///A/song2'', ''file:///B/song2'', ''file:///B/song1''],
          [2, 7, 1]) \<and>
   sorted (map (\<lambda>r. GroupKey (hd r)) (runs GroupKey
     [''file:///A/song1'', ''file:///A/song2'', ''file:///B/song2'', ''file:///B/song1'']))"
proof -
  have s: "shuffle insertionSort [5, 3, 2, 7, 1]
     [''file:///B/song2'', ''file:///A/song1'', ''file:///B/song1'', ''file:///A/song2'']
     False True =
     Inr ([''file:///A/song1'', ''file:///A/song2'', ''file:///B/song2'', ''file:///B/song1''],
          [2, 7, 1])"
    by code_simp
  from s shuffle_dirs_sorted [OF insertionSort_sorts s] show ?thesis by simp
qed

text \<open>
  Claim C4. When \<open>shuffleInDir\<close> is false, the leaf names within every run of the result
  that shares a group key are in non-decreasing byte order; that order is not aware of
  numbers, \<open>10\<close> comes before \<open>2\<close>.
\<close>

theorem shuffle_files_sorted:
  assumes "sorts_by srt less_file"
    and "shuffle srt rnd locations shuffleDirs False = Inr (out, rnd')"
  shows "(\<forall>r\<in>set (runs GroupKey out). sorted (map LeafName r)) \<and>
         less_file ''file:///d/10'' ''file:///d/2''"
proof
  from shuffle_runs [OF assms] obtain dirs1 G where
    r: "runs GroupKey out = map G dirs1" and
    k: "map (\<lambda>r. GroupKey (hd r)) (runs GroupKey out) = dirs1" and
    s: "\<forall>d\<in>set dirs1. sorted (map LeafName (G d))"
    by blast
  show "\<forall>r\<in>set (runs GroupKey out). sorted (map LeafName r)"
    unfolding r using s by simp
  show "less_file ''file:///d/10'' ''file:///d/2''" by code_simp
qed

theorem shuffle_files_sorted_witness:
  "shuffle insertionSort [5, 3, 2, 7, 1]
     [''file:///d/2'', ''file:///c/1'', ''file:///d/10''] True False =
     Inr ([''file:///d/10'', ''file:///d/2'', ''file:///c/1''], [3, 2, 7, 1]) \<and>
   list_all (\<lambda>r. sorted (map LeafName r))
     (runs GroupKey [''file:///d/10'', ''file:///d/2'', ''file:///c/1''])"
proof -
  have s: "shuffle insertionSort [5, 3, 2, 7, 1]
     [''file:///d/2'', ''file:///c/1'', ''file:///d/10''] True False =
     Inr ([''file:///d/10'', ''file:///d/2'', ''file:///c/1''], [3, 2, 7, 1])"
    by code_simp
  from s shuffle_files_sorted [OF insertionSort_sorts s] show ?thesis
    unfolding list_all_iff by blast
qed

section \<open>Grouping\<close>

text \<open>
  Claim C5. For every input and both flags, the locations of the input that have one
  group key are together in one run of the result: the runs have distinct keys, and a
  run holds all the locations of the input with its key. Every location of the input is
  in the group of its own key and in no other; the group lists the locations of its key
  in the order of the input.
\<close>

theorem shuffle_groups_contiguous:
  assumes "sorts_by srt less_file"
  shows "(\<forall>out rnd'. shuffle srt rnd locations shuffleDirs shuffleInDir = Inr (out, rnd') \<longrightarrow>
            distinct (map (\<lambda>r. GroupKey (hd r)) (runs GroupKey out)) \<and>
            (\<forall>r\<in>set (runs GroupKey out).
               mset r = mset (filter (\<lambda>l. GroupKey l = GroupKey (hd r)) locations))) \<and>
         (\<forall>all dirs. group_loop locations (Map.empty, []) = Inr (all, dirs) \<longrightarrow>
            distinct dirs \<and> set dirs = GroupKey ` set locations \<and>
            (\<forall>d. lookup all d = filter (\<lambda>l. GroupKey l = d) locations) \<and>
            (\<forall>l\<in>set locations. \<forall>d. l \<in> set (lookup all d) \<longleftrightarrow> d = GroupKey l))"
proof (intro conjI allI impI)
  fix out rnd'
  assume s: "shuffle srt rnd locations shuffleDirs shuffleInDir = Inr (out, rnd')"
  from shuffle_runs [OF assms s] obtain dirs1 G where
    r: "runs GroupKey out = map G dirs1" and
    k: "map (\<lambda>r. GroupKey (hd r)) (runs GroupKey out) = dirs1" and
    d: "distinct dirs1" and
    m: "\<And>d. mset (G d) = mset (filter (\<lambda>l. GroupKey l = d) locations)"
    by blast
  from k d show "distinct (map (\<lambda>r. GroupKey (hd r)) (runs GroupKey out))" by simp
  show "\<forall>r\<in>set (runs GroupKey out).
      mset r = mset (filter (\<lambda>l. GroupKey l = GroupKey (hd r)) locations)"
  proof
    fix x
    assume "x \<in> set (runs GroupKey out)"
    then obtain i where i: "i < length dirs1" "x = G (dirs1 ! i)"
      by (auto simp: r in_set_conv_nth)
    from k i have "GroupKey (hd x) = dirs1 ! i"
      by (metis length_map nth_map r)
    with m [of "dirs1 ! i"] i show "mset x = mset (filter (\<lambda>l. GroupKey l = GroupKey (hd x)) locations)"
      by simp
  qed
next
  fix all dirs
  assume g: "group_loop locations (Map.empty, []) = Inr (all, dirs)"
  from group_loop_empty(1) [OF g] show "distinct dirs" .
  from group_loop_empty(2) [OF g] show "set dirs = GroupKey ` set locations" .
  from group_loop_empty(3) [OF g] show "lookup all d = filter (\<lambda>l. GroupKey l = d) locations" for d .
  from group_loop_empty(3) [OF g]
  show "\<forall>l\<in>set locations. \<forall>d. l \<in> set (lookup all d) \<longleftrightarrow> d = GroupKey l"
    by auto
qed

theorem shuffle_groups_contiguous_witness:
  "shuffle insertionSort [5, 3, 2, 7, 1]
     [''file:///B/song2'', ''file:///A/song1'', ''file:///B/song1'', ''file:///A/song2'']
     True True =
     Inr ([''file:///B/song2'', ''file:///B/song1'', ''file:///A/song2'', ''file:///A/song1''],
          [7, 1]) \<and>
   distinct (map (\<lambda>r. GroupKey (hd r)) (runs GroupKey
     [''file:///B/song2'', ''file:///B/song1'', ''file:///A/song2'', ''file:///A/song1'']))"
proof -
  have s: "shuffle insertionSort [5, 3, 2, 7, 1]
     [''file:///B/song2'', ''file:///A/song1'', ''file:///B/song1'', ''file:///A/song2'']
     True True =
     Inr ([''file:///B/song2'', ''file:///B/song1'', ''file:///A/song2'', ''file:///A/song1''],
          [7, 1])"
    by code_simp
  from s shuffle_groups_contiguous [OF insertionSort_sorts, of "[5, 3, 2, 7, 1]"
     "[''file:///B/song2'', ''file:///A/song1'', ''file:///B/song1'', ''file:///A/song2'']"
     True True]
  show ?thesis by simp
qed

section \<open>The path that does not shuffle\<close>


lemma reorder_no_shuffle:
  "reorder srt rnd all dirs False False =
     (concat (map (lookup (sort_in_dirs srt (sort_Strings dirs) all)) (sort_Strings dirs)), rnd)"
  by (simp add: reorder_def)








section \<open>Where \<open>Text\<close> returns\<close>

lemma QueryUnescape_example: "QueryUnescape ''a.mp3'' = Some ''a.mp3''"
  by code_simp

text \<open>
  Claim C9. \<open>Text\<close> takes the first seven bytes of the decoded string before it looks at
  them: a location that decodes to fewer than seven bytes makes it panic, neither a value
  nor the fatal error of a failed decoding, and it returns exactly for the locations that
  decode to seven bytes or more. The well-formed location \<open>a.mp3\<close> is such a failure.
\<close>

theorem Text_panics_below_seven_bytes:
  "(QueryUnescape l = Some s \<and> length s < 7 \<longrightarrow> Text l = Inl Panic_slice_bounds) \<and>
   ((\<exists>t. Text l = Inr t) \<longleftrightarrow> (\<exists>s. QueryUnescape l = Some s \<and> 7 \<le> length s)) \<and>
   QueryUnescape ''a.mp3'' = Some ''a.mp3'' \<and> Text ''a.mp3'' = Inl Panic_slice_bounds"
proof (intro conjI impI)
  assume "QueryUnescape l = Some s \<and> length s < 7"
  then show "Text l = Inl Panic_slice_bounds" by (simp add: Text_def)
next
  show "(\<exists>t. Text l = Inr t) \<longleftrightarrow> (\<exists>s. QueryUnescape l = Some s \<and> 7 \<le> length s)"
    by (auto simp: Text_def split: option.splits)
next
  show "QueryUnescape ''a.mp3'' = Some ''a.mp3''" by (rule QueryUnescape_example)
next
  show "Text ''a.mp3'' = Inl Panic_slice_bounds" by code_simp
qed

theorem Text_panics_below_seven_bytes_witness:
  "QueryUnescape ''a.mp3'' = Some ''a.mp3'' \<and> length ''a.mp3'' < 7 \<and>
   Text ''a.mp3'' = Inl Panic_slice_bounds"
proof -
  have "QueryUnescape ''a.mp3'' = Some ''a.mp3'' \<and> length ''a.mp3'' < 7"
    by (simp add: QueryUnescape_example)
  with Text_panics_below_seven_bytes [of "''a.mp3''" "''a.mp3''"] show ?thesis by blast
qed

section \<open>When the engine fails\<close>

lemma shuffle_fails_iff:
  assumes "sorts_by srt less_file"
  shows "(\<exists>e. shuffle srt rnd locations shuffleDirs shuffleInDir = Inl e) \<longleftrightarrow>
    \<not> list_all well_formed locations"
proof
  assume e: "\<exists>e. shuffle srt rnd locations shuffleDirs shuffleInDir = Inl e"
  show "\<not> list_all well_formed locations"
  proof
    assume "list_all well_formed locations"
    then have "\<forall>l\<in>set locations. \<exists>k. Split l = Inr k" by (simp add: all_well_formed_iff)
    from shuffle_returns [OF assms this, of rnd shuffleDirs shuffleInDir] e
    show False by auto
  qed
next
  assume n: "\<not> list_all well_formed locations"
  show "\<exists>e. shuffle srt rnd locations shuffleDirs shuffleInDir = Inl e"
  proof (cases "shuffle srt rnd locations shuffleDirs shuffleInDir")
    case (Inl e)
    then show ?thesis by blast
  next
    case (Inr res)
    from shuffle_Inr_split [OF this] n show ?thesis by (simp add: all_well_formed_iff)
  qed
qed

text \<open>
  Claim C6, at the input that breaks it. The one location \<open>a.mp3\<close> decodes without
  error, and \<open>shuffle\<close> fails all the same, with the panic of \<open>Text\<close>: the engine does not
  fail only for a malformed percent-encoding.
\<close>

theorem shuffle_fails_without_decoding_error:
  "QueryUnescape ''a.mp3'' = Some ''a.mp3'' \<and>
   shuffle srt rnd [''a.mp3''] shuffleDirs shuffleInDir = Inl Panic_slice_bounds"
proof
  show "QueryUnescape ''a.mp3'' = Some ''a.mp3''" by (rule QueryUnescape_example)
  have "Split ''a.mp3'' = Inl Panic_slice_bounds" by code_simp
  then show "shuffle srt rnd [''a.mp3''] shuffleDirs shuffleInDir = Inl Panic_slice_bounds"
    by (simp add: shuffle_def)
qed

section \<open>The derived keys\<close>

lemma not_hex_plus_space: "\<not> ishex CHR ''+''" "\<not> ishex CHR '' ''"
  by (simp_all add: ishex_def byte_def)

lemma ishex_plus_to_space: "ishex (plus_to_space c) = ishex c"
  by (simp add: plus_to_space_def not_hex_plus_space)

lemma plus_to_space_hex: "ishex c \<Longrightarrow> plus_to_space c = c"
  using not_hex_plus_space by (auto simp: plus_to_space_def)

text \<open>\<open>QueryUnescape\<close> is percent-decoding after every \<open>+\<close> has become a space.\<close>

lemma QueryUnescape_percent_decode:
  "QueryUnescape l = percent_decode (map plus_to_space l)"
proof (induction l rule: QueryUnescape.induct)
  case 1
  then show ?case by simp
next
  case (2 c cs)
  show ?case
  proof (cases "c = CHR ''%''")
    case True
    show ?thesis
    proof (cases cs)
      case Nil
      with True show ?thesis by (simp add: plus_to_space_def)
    next
      case (Cons h1 cs')
      show ?thesis
      proof (cases cs')
        case Nil
        with True Cons show ?thesis by (simp add: plus_to_space_def)
      next
        case (Cons h2 rest)
        note cs = \<open>cs = h1 # cs'\<close> Cons
        show ?thesis
        proof (cases "ishex h1 \<and> ishex h2")
          case True
          with "2.IH"(1) [OF \<open>c = CHR ''%''\<close>, of h1 cs' h2 rest] cs \<open>c = CHR ''%''\<close>
          show ?thesis
            by (simp add: plus_to_space_hex ishex_plus_to_space) (simp add: plus_to_space_def)
        next
          case False
          with cs \<open>c = CHR ''%''\<close> show ?thesis
            by (auto simp: ishex_plus_to_space) (simp_all add: plus_to_space_def)
        qed
      qed
    qed
  next
    case False
    show ?thesis
    proof (cases "c = CHR ''+''")
      case True
      with "2.IH"(2) [OF False True] show ?thesis by (simp add: plus_to_space_def)
    next
      case False
      with "2.IH"(3) [OF \<open>c \<noteq> CHR ''%''\<close> False] \<open>c \<noteq> CHR ''%''\<close> show ?thesis
        by (simp add: plus_to_space_def)
    qed
  qed
qed

lemma filepath_Split_props:
  assumes "filepath_Split p = (d, f)"
  shows "d @ f = p" and "CHR ''/'' \<notin> set f" and "d = [] \<or> last d = CHR ''/''"
proof -
  let ?P = "\<lambda>c. c \<noteq> CHR ''/''"
  from assms have d: "d = rev (dropWhile ?P (rev p))" and f: "f = rev (takeWhile ?P (rev p))"
    by (simp_all add: filepath_Split_def)
  have "d @ f = rev (takeWhile ?P (rev p) @ dropWhile ?P (rev p))"
    unfolding d f by (simp only: rev_append)
  then show "d @ f = p" by simp
  show "CHR ''/'' \<notin> set f"
    unfolding f using set_takeWhileD [of "CHR ''/''" ?P "rev p"] by auto
  show "d = [] \<or> last d = CHR ''/''"
  proof (cases "dropWhile ?P (rev p) = []")
    case True
    then show ?thesis by (simp add: d)
  next
    case False
    with hd_dropWhile [OF False] show ?thesis by (simp add: d last_rev)
  qed
qed


text \<open>
  Claim C2, as it is stated, fails twice. The keys of a location with a \<open>+\<close> are those of
  the location with a space in its place, since the decoding is that of a query
  component; and a location that decodes to fewer than seven bytes has no keys, \<open>Text\<close>
  panics.
\<close>

theorem derived_keys_counterexample:
  "Split ''file:///a+b/c.mp3'' = Inr (''/a b/'', ''c.mp3'') \<and>
   spec_derived_keys ''file:///a+b/c.mp3'' = Some (''/a+b/'', ''c.mp3'') \<and>
   Split ''a.mp3'' = Inl Panic_slice_bounds \<and>
   spec_derived_keys ''a.mp3'' = Some ([], ''a.mp3'')"
  by code_simp

text \<open>
  Claim C2, amended. For a location that decodes to seven bytes or more, the decoding
  being percent-decoding after every \<open>+\<close> has become a space: the keys are the decoded
  string without a leading \<open>file://\<close>, cut behind its last separator, so that the group
  key is empty or ends with the separator and the leaf name has none. The location
  \<open>file://%2Fmusic%2FArtist%2Fsong.mp3\<close> has the group key \<open>/music/Artist/\<close> and the leaf
  name \<open>song.mp3\<close>.
\<close>

theorem derived_keys:
  assumes "percent_decode (map plus_to_space l) = Some s" and "7 \<le> length s"
  shows "(\<exists>d f. Split l = Inr (d, f) \<and> GroupKey l = d \<and> LeafName l = f \<and>
            d @ f = strip_scheme s \<and> CHR ''/'' \<notin> set f \<and> (d = [] \<or> last d = CHR ''/'')) \<and>
         Split ''file://%2Fmusic%2FArtist%2Fsong.mp3'' = Inr (''/music/Artist/'', ''song.mp3'')"
proof
  from assms(1) have q: "QueryUnescape l = Some s" by (simp add: QueryUnescape_percent_decode)
  with assms(2) have t: "Text l = Inr (strip_scheme s)"
    by (simp add: Text_def strip_scheme_def)
  obtain d f where df: "filepath_Split (strip_scheme s) = (d, f)"
    by (cases "filepath_Split (strip_scheme s)")
  with t have sp: "Split l = Inr (d, f)" by (simp add: Split_def)
  from sp Split_Inr_keys [OF sp] filepath_Split_props [OF df]
  show "\<exists>d f. Split l = Inr (d, f) \<and> GroupKey l = d \<and> LeafName l = f \<and>
            d @ f = strip_scheme s \<and> CHR ''/'' \<notin> set f \<and> (d = [] \<or> last d = CHR ''/'')"
    by blast
  show "Split ''file://%2Fmusic%2FArtist%2Fsong.mp3'' = Inr (''/music/Artist/'', ''song.mp3'')"
    by code_simp
qed

theorem derived_keys_witness:
  "percent_decode (map plus_to_space ''file://%2Fmusic%2FArtist%2Fsong.mp3'') =
     Some ''file:///music/Artist/song.mp3'' \<and>
   7 \<le> length ''file:///music/Artist/song.mp3'' \<and>
   strip_scheme ''file:///music/Artist/song.mp3'' = ''/music/Artist/song.mp3'' \<and>
   (\<exists>d f. Split ''file://%2Fmusic%2FArtist%2Fsong.mp3'' = Inr (d, f) \<and>
      d @ f = ''/music/Artist/song.mp3'' \<and> CHR ''/'' \<notin> set f)"
proof -
  have p: "percent_decode (map plus_to_space ''file://%2Fmusic%2FArtist%2Fsong.mp3'') =
     Some ''file:///music/Artist/song.mp3''"
    by code_simp
  have n: "7 \<le> length ''file:///music/Artist/song.mp3''" by simp
  have s: "strip_scheme ''file:///music/Artist/song.mp3'' = ''/music/Artist/song.mp3''"
    by code_simp
  from derived_keys [OF p n]
  obtain d f where "Split ''file://%2Fmusic%2FArtist%2Fsong.mp3'' = Inr (d, f)"
    "d @ f = strip_scheme ''file:///music/Artist/song.mp3''" "CHR ''/'' \<notin> set f"
    by blast
  then have "\<exists>d f. Split ''file://%2Fmusic%2FArtist%2Fsong.mp3'' = Inr (d, f) \<and>
      d @ f = ''/music/Artist/song.mp3'' \<and> CHR ''/'' \<notin> set f"
    unfolding s by blast
  with p n s show ?thesis by (intro conjI)
qed

section \<open>The two programs\<close>

lemma sorts_by_single: "sorts_by srt lt \<Longrightarrow> srt lt [x] = [x]"
proof -
  assume "sorts_by srt lt"
  then have "mset (srt lt [x]) = mset [x]" by (simp add: sorts_by_def)
  then show ?thesis by simp
qed

lemma sorts_by_pair:
  assumes "sorts_by srt lt" and "lt x y"
  shows "srt lt [x, y] = [x, y]"
proof -
  from assms(1) have m: "mset (srt lt [x, y]) = mset [x, y]"
    and s: "sorted_wrt (\<lambda>a b. \<not> lt b a) (srt lt [x, y])"
    by (simp_all add: sorts_by_def)
  from m have "length (srt lt [x, y]) = 2" using mset_eq_length by fastforce
  then obtain a b where ab: "srt lt [x, y] = [a, b]"
    by (cases "srt lt [x, y]"; cases "tl (srt lt [x, y])") auto
  with m have "{#a, b#} = {#x, y#}" by simp
  then have "a = x \<and> b = y \<or> a = y \<and> b = x"
    by (auto simp: add_eq_conv_diff)
  with s ab assms(2) show ?thesis by auto
qed

text \<open>
  Claim C10, at the input that breaks it: two locations of one directory and one of
  another, both flags false. \<open>shuffle\<close> of \<open>rhythmbox.go\<close> lists the first directory
  twice, so its result holds that directory twice and the copy over the caller's three
  locations loses the third; \<open>shuffle\<close> of the current program returns the three.
\<close>

theorem shuffle_inplace_differs:
  assumes "sorts_by srt less_file"
  shows "shuffle_inplace srt rnd [''file:///a/1'', ''file:///a/2'', ''file:///b/1''] False False =
           Inr ([''file:///a/1'', ''file:///a/2'', ''file:///a/1''], rnd) \<and>
         shuffle srt rnd [''file:///a/1'', ''file:///a/2'', ''file:///b/1''] False False =
           Inr ([''file:///a/1'', ''file:///a/2'', ''file:///b/1''], rnd)"
proof -
  have sp: "Split ''file:///a/1'' = Inr (''/a/'', ''1'')"
    "Split ''file:///a/2'' = Inr (''/a/'', ''2'')"
    "Split ''file:///b/1'' = Inr (''/b/'', ''1'')"
    by code_simp+
  have "less_file ''file:///a/1'' ''file:///a/2''" by code_simp
  with assms have a: "srt less_file [''file:///a/1'', ''file:///a/2''] =
      [''file:///a/1'', ''file:///a/2'']"
    by (rule sorts_by_pair)
  from assms have b: "srt less_file [''file:///b/1''] = [''file:///b/1'']"
    by (rule sorts_by_single)
  have s1: "sort [''/a/'', ''/a/'', ''/b/''] = [''/a/'', ''/a/'', ''/b/'']"
    "sort [''/a/'', ''/b/''] = [''/a/'', ''/b/'']"
    by code_simp+
  have ne: "''/a/'' \<noteq> ''/b/''" by simp
  show ?thesis
    by (simp add: shuffle_inplace_def shuffle_def reorder_no_shuffle sort_Strings_def sp
        lookup_def s1 a b copy_def ne)
qed

theorem shuffle_inplace_differs_witness:
  "shuffle_inplace insertionSort [] [''file:///a/1'', ''file:///a/2'', ''file:///b/1''] False False =
     Inr ([''file:///a/1'', ''file:///a/2'', ''file:///a/1''], []) \<and>
   shuffle insertionSort [] [''file:///a/1'', ''file:///a/2'', ''file:///b/1''] False False =
     Inr ([''file:///a/1'', ''file:///a/2'', ''file:///b/1''], [])"
  using shuffle_inplace_differs [OF insertionSort_sorts, of "[]"] .


section \<open>What the engine writes\<close>

text \<open>Every write of \<open>shuffle\<close> goes through a slice of its own, and so leaves the
  first \<open>n\<close> arrays of the store, those of its caller, as they are.\<close>

lemma store_frame:
  "n \<le> ptr s \<Longrightarrow> take n (store h s i v) = take n h"
  by (simp add: store_def)

lemma length_store: "length (store h s i v) = length h"
  by (simp add: store_def)

lemma store_from_frame:
  "n \<le> ptr s \<Longrightarrow> take n (store_from h s i vs) = take n h"
  by (induction vs arbitrary: h i) (simp_all add: store_frame)

lemma length_store_from: "length (store_from h s i vs) = length h"
  by (induction vs arbitrary: h i) (simp_all add: length_store)

lemma fresh_nil: "fresh n nil"
  by (simp add: fresh_def nil_def)

lemma fresh_lookup_st:
  "\<forall>d s. all d = Some s \<longrightarrow> fresh n s \<Longrightarrow> fresh n (lookup_st all dir)"
  by (simp add: lookup_st_def fresh_nil split: option.splits)

lemma append_st_frame:
  assumes "fresh n s" and "n \<le> length h" and "append_st grow h s xs = (s', h')"
  shows "take n h' = take n h" and "length h \<le> length h'" and "fresh n s'"
proof -
  let ?m = "len s + length xs"
  show "take n h' = take n h"
  proof (cases "?m \<le> cap s")
    case True
    with assms(3) have h': "h' = store_from h s (len s) xs"
      by (simp add: append_st_def)
    show ?thesis
    proof (cases "cap s = 0")
      case True
      with \<open>?m \<le> cap s\<close> have "xs = []" by simp
      with h' show ?thesis by simp
    next
      case False
      with assms(1) have "n \<le> ptr s" by (simp add: fresh_def)
      then show ?thesis unfolding h' by (rule store_from_frame)
    qed
  next
    case False
    with assms(3) have "\<exists>arr. h' = h @ [arr]"
      by (auto simp: append_st_def Let_def)
    with assms(2) show ?thesis by auto
  qed
  show "length h \<le> length h'"
    using assms(3) by (auto simp: append_st_def Let_def length_store_from split: if_splits)
  show "fresh n s'"
    using assms by (auto simp: append_st_def Let_def fresh_def split: if_splits)
qed

lemma swap_st_frame: "n \<le> ptr s \<Longrightarrow> take n (swap_st h s i j) = take n h"
  by (simp add: swap_st_def store_frame)

lemma length_swap_st: "length (swap_st h s i j) = length h"
  by (simp add: swap_st_def length_store)

lemma Shuffle_from_st_frame:
  "n \<le> ptr s \<Longrightarrow> Shuffle_from_st i s g h = (h', g') \<Longrightarrow>
   take n h' = take n h \<and> length h' = length h"
proof (induction i arbitrary: g h)
  case 0
  then show ?case by simp
next
  case (Suc i)
  obtain j g1 where d: "Intn g (Suc i + 1) = (j, g1)" by (cases "Intn g (Suc i + 1)")
  with Suc.prems(2) have "Shuffle_from_st i s g1 (swap_st h s (Suc i) j) = (h', g')" by simp
  from Suc.IH [OF Suc.prems(1) this] Suc.prems(1) show ?case
    by (simp add: swap_st_frame length_swap_st)
qed

lemma Shuffle_st_frame:
  assumes "fresh n s" and "Shuffle_st g h s = (h', g')"
  shows "take n h' = take n h \<and> length h' = length h"
proof (cases "cap s = 0")
  case True
  with assms(1) have "len s = 0" by (simp add: fresh_def)
  with assms(2) show ?thesis by (simp add: Shuffle_st_def)
next
  case False
  with assms(1) have "n \<le> ptr s" by (simp add: fresh_def)
  moreover from assms(2) have "Shuffle_from_st (len s - 1) s g h = (h', g')"
    by (simp add: Shuffle_st_def)
  ultimately show ?thesis by (rule Shuffle_from_st_frame)
qed

lemma store_sorted_frame:
  assumes "fresh n s"
  shows "take n (store_from h s 0 (take (len s) xs)) = take n h"
proof (cases "cap s = 0")
  case True
  with assms have "len s = 0" by (simp add: fresh_def)
  then show ?thesis by simp
next
  case False
  with assms have "n \<le> ptr s" by (simp add: fresh_def)
  then show ?thesis by (rule store_from_frame)
qed

lemma sort_Strings_st_frame:
  "fresh n s \<Longrightarrow> take n (sort_Strings_st h s) = take n h \<and>
     length (sort_Strings_st h s) = length h"
  by (simp add: sort_Strings_st_def store_sorted_frame length_store_from)

lemma sort_Slice_st_frame:
  "fresh n s \<Longrightarrow> take n (sort_Slice_st srt h s) = take n h \<and>
     length (sort_Slice_st srt h s) = length h"
  by (simp add: sort_Slice_st_def store_sorted_frame length_store_from)

lemma group_loop_st_frame:
  assumes "group_loop_st grow locations is (h, all, dirs) = Inr (h', all', dirs')"
    and "n \<le> length h" and "fresh n dirs" and "\<forall>d s. all d = Some s \<longrightarrow> fresh n s"
  shows "take n h' = take n h \<and> n \<le> length h' \<and> fresh n dirs' \<and>
    (\<forall>d s. all' d = Some s \<longrightarrow> fresh n s)"
  using assms
proof (induction "is" arbitrary: h all dirs)
  case Nil
  then show ?case by simp
next
  case (Cons i "is")
  let ?l = "index h locations i"
  from Cons.prems(1) obtain dir leaf where sp: "Split ?l = Inr (dir, leaf)"
    by (auto split: sum.splits)
  obtain dirs1 h1 where a1:
    "(if all dir = None then append_st grow h dirs [dir] else (dirs, h)) = (dirs1, h1)"
    by (cases "if all dir = None then append_st grow h dirs [dir] else (dirs, h)")
  obtain thisDir h2 where a2: "append_st grow h1 (lookup_st all dir) [?l] = (thisDir, h2)"
    by (cases "append_st grow h1 (lookup_st all dir) [?l]")
  from Cons.prems(1) sp a1 a2
  have g: "group_loop_st grow locations is (h2, all(dir \<mapsto> thisDir), dirs1) = Inr (h', all', dirs')"
    by simp
  have f1: "take n h1 = take n h \<and> length h \<le> length h1 \<and> fresh n dirs1"
  proof (cases "all dir = None")
    case True
    with a1 have "append_st grow h dirs [dir] = (dirs1, h1)" by simp
    from append_st_frame [OF Cons.prems(3) Cons.prems(2) this] show ?thesis by simp
  next
    case False
    with a1 Cons.prems(3) show ?thesis by simp
  qed
  then have n1: "n \<le> length h1" using Cons.prems(2) by simp
  have "fresh n (lookup_st all dir)" using Cons.prems(4) by (rule fresh_lookup_st)
  from append_st_frame [OF this n1 a2]
  have f2: "take n h2 = take n h1" "length h1 \<le> length h2" "fresh n thisDir" .
  have n2: "n \<le> length h2" using n1 f2(2) by simp
  have fa: "\<forall>d s. (all(dir \<mapsto> thisDir)) d = Some s \<longrightarrow> fresh n s"
    using Cons.prems(4) f2(3) by simp
  from Cons.IH [OF g n2 _ fa] f1 f2(1) show ?case by simp
qed

lemma shuffle_in_dirs_st_frame:
  assumes "shuffle_in_dirs_st dirs is all (h, g) = (h', g')"
    and "\<forall>d s. all d = Some s \<longrightarrow> fresh n s"
  shows "take n h' = take n h \<and> length h' = length h"
  using assms
proof (induction "is" arbitrary: h g)
  case Nil
  then show ?case by simp
next
  case (Cons i "is")
  let ?s = "lookup_st all (index h dirs i)"
  obtain h1 g1 where s: "Shuffle_st g h ?s = (h1, g1)" by (cases "Shuffle_st g h ?s")
  have "fresh n ?s" using Cons.prems(2) by (rule fresh_lookup_st)
  from Shuffle_st_frame [OF this s] have f: "take n h1 = take n h \<and> length h1 = length h" .
  from Cons.prems(1) s have "shuffle_in_dirs_st dirs is all (h1, g1) = (h', g')" by simp
  from Cons.IH [OF this Cons.prems(2)] f show ?case by simp
qed

lemma sort_in_dirs_st_frame:
  assumes "\<forall>d s. all d = Some s \<longrightarrow> fresh n s"
  shows "take n (sort_in_dirs_st srt dirs is all h) = take n h \<and>
    length (sort_in_dirs_st srt dirs is all h) = length h"
proof (induction "is" arbitrary: h)
  case Nil
  then show ?case by simp
next
  case (Cons i "is")
  let ?s = "lookup_st all (index h dirs i)"
  have "fresh n ?s" using assms by (rule fresh_lookup_st)
  from sort_Slice_st_frame [OF this, of srt h] Cons.IH [of "sort_Slice_st srt h ?s"]
  show ?case by simp
qed

lemma flatten_st_frame:
  assumes "flatten_st grow dirs is all (result, h) = (result', h')"
    and "n \<le> length h" and "fresh n result"
  shows "take n h' = take n h \<and> n \<le> length h' \<and> fresh n result'"
  using assms
proof (induction "is" arbitrary: result h)
  case Nil
  then show ?case by simp
next
  case (Cons i "is")
  let ?xs = "read h (lookup_st all (index h dirs i))"
  obtain r1 h1 where a: "append_st grow h result ?xs = (r1, h1)"
    by (cases "append_st grow h result ?xs")
  from append_st_frame [OF Cons.prems(3) Cons.prems(2) a]
  have f: "take n h1 = take n h" "length h \<le> length h1" "fresh n r1" .
  from Cons.prems(1) a have "flatten_st grow dirs is all (r1, h1) = (result', h')" by simp
  from Cons.IH [OF this _ f(3)] f(1,2) Cons.prems(2) show ?case by simp
qed


text \<open>The whole of \<open>shuffle\<close>: the arrays that were there before the call are as they
  were, and \<open>result\<close> is a slice of the call.\<close>

lemma shuffle_st_frame:
  assumes "shuffle_st srt grow rnd h locations shuffleDirs shuffleInDir = Inr (result, h', rnd')"
  shows "take (length h) h' = h" and "fresh (length h) result"
proof -
  let ?n = "length h"
  from assms obtain h1 all dirs where
    g: "group_loop_st grow locations [0..<len locations] (h, Map.empty, nil) = Inr (h1, all, dirs)"
    by (auto simp: shuffle_st_def split: sum.splits)
  obtain h2 rnd1 where d:
    "(if shuffleDirs then Shuffle_st rnd h1 dirs else (sort_Strings_st h1 dirs, rnd)) = (h2, rnd1)"
    by (cases "if shuffleDirs then Shuffle_st rnd h1 dirs else (sort_Strings_st h1 dirs, rnd)")
  obtain h3 rnd2 where i:
    "(if shuffleInDir then shuffle_in_dirs_st dirs [0..<len dirs] all (h2, rnd1)
      else (sort_in_dirs_st srt dirs [0..<len dirs] all h2, rnd1)) = (h3, rnd2)"
    by (cases "if shuffleInDir then shuffle_in_dirs_st dirs [0..<len dirs] all (h2, rnd1)
      else (sort_in_dirs_st srt dirs [0..<len dirs] all h2, rnd1)")
  obtain res h4 where f: "flatten_st grow dirs [0..<len dirs] all (nil, h3) = (res, h4)"
    by (cases "flatten_st grow dirs [0..<len dirs] all (nil, h3)")
  from assms g d i f have r: "result = res" "h' = h4"
    by (simp_all add: shuffle_st_def split: if_splits)
  from group_loop_st_frame [OF g, of ?n]
  have 1: "take ?n h1 = h" "?n \<le> length h1" "fresh ?n dirs"
    "\<forall>d s. all d = Some s \<longrightarrow> fresh ?n s"
    by (simp_all add: fresh_nil)
  have 2: "take ?n h2 = take ?n h1 \<and> length h2 = length h1"
  proof (cases shuffleDirs)
    case True
    with d have "Shuffle_st rnd h1 dirs = (h2, rnd1)" by simp
    from Shuffle_st_frame [OF 1(3) this] show ?thesis .
  next
    case False
    with d have "h2 = sort_Strings_st h1 dirs" by simp
    with sort_Strings_st_frame [OF 1(3), of h1] show ?thesis by simp
  qed
  have 3: "take ?n h3 = take ?n h2 \<and> length h3 = length h2"
  proof (cases shuffleInDir)
    case True
    with i have "shuffle_in_dirs_st dirs [0..<len dirs] all (h2, rnd1) = (h3, rnd2)" by simp
    from shuffle_in_dirs_st_frame [OF this 1(4)] show ?thesis .
  next
    case False
    with i have "h3 = sort_in_dirs_st srt dirs [0..<len dirs] all h2" by simp
    with sort_in_dirs_st_frame [OF 1(4), of srt dirs "[0..<len dirs]" h2] show ?thesis by simp
  qed
  from 1(2) 2 3 have "?n \<le> length h3" by simp
  from flatten_st_frame [OF f this fresh_nil]
  have 4: "take ?n h4 = take ?n h3" "fresh ?n res" by simp_all
  from 1(1) 2 3 4(1) r show "take (length h) h' = h" by simp
  from 4(2) r show "fresh (length h) result" by simp
qed

lemma shuffle_st_no_draw:
  "shuffle_st srt grow rnd h locations False False = Inr (result, h', rnd') \<Longrightarrow> rnd' = rnd"
  by (auto simp: shuffle_st_def split: sum.splits prod.splits if_splits)

lemma read_frame:
  assumes "valid h s" and "take (length h) h' = h"
  shows "read h' s = read h s"
proof (cases "cap s = 0")
  case True
  with assms(1) have "len s = 0" by (simp add: valid_def)
  then show ?thesis by (simp add: read_def)
next
  case False
  with assms(1) have "ptr s < length h" by (simp add: valid_def)
  with assms(2) have "h' ! ptr s = h ! ptr s" by (metis nth_take)
  then show ?thesis by (simp add: read_def)
qed


section \<open>What the engine on the store computes\<close>

lemma store_other: "p \<noteq> ptr s \<Longrightarrow> store h s i v ! p = h ! p"
  by (simp add: store_def)

lemma store_from_other: "p \<noteq> ptr s \<Longrightarrow> store_from h s i vs ! p = h ! p"
  by (induction vs arbitrary: h i) (simp_all add: store_other)

lemma store_from_self:
  "ptr s < length h \<Longrightarrow> off s + i + length vs \<le> length (h ! ptr s) \<Longrightarrow>
   store_from h s i vs ! ptr s =
     take (off s + i) (h ! ptr s) @ vs @ drop (off s + i + length vs) (h ! ptr s)"
proof (induction vs arbitrary: h i)
  case Nil
  then show ?case by simp
next
  case (Cons v vs)
  let ?arr = "h ! ptr s"
  let ?h1 = "store h s i v"
  from Cons.prems have k: "off s + i < length ?arr" by simp
  from Cons.prems(1) have a1: "?h1 ! ptr s = ?arr[off s + i := v]" by (simp add: store_def)
  have "store_from ?h1 s (Suc i) vs ! ptr s =
      take (off s + Suc i) (?h1 ! ptr s) @ vs @ drop (off s + Suc i + length vs) (?h1 ! ptr s)"
    using Cons.prems by (intro Cons.IH) (simp_all add: length_store a1)
  also have "take (off s + Suc i) (?h1 ! ptr s) = take (off s + i) ?arr @ [v]"
    using k by (simp add: a1 take_Suc_conv_app_nth)
  also have "drop (off s + Suc i + length vs) (?h1 ! ptr s) =
      drop (off s + i + length (v # vs)) ?arr"
    by (simp add: a1)
  finally show ?case by simp
qed

lemma valid_store_from:
  "valid h t \<Longrightarrow> valid (store_from h s i vs) t"
proof (induction vs arbitrary: h i)
  case Nil
  then show ?case by simp
next
  case (Cons v vs)
  have "valid (store h s i v) t"
    using Cons.prems by (cases "ptr t = ptr s") (auto simp: valid_def store_def)
  then show ?case by (simp add: Cons.IH)
qed

lemma read_store_from_apart:
  "apart s t \<Longrightarrow> cap s \<noteq> 0 \<Longrightarrow> valid h t \<Longrightarrow> read (store_from h s i vs) t = read h t"
proof (cases "cap t = 0")
  case True
  assume "valid h t"
  with True have "len t = 0" by (simp add: valid_def)
  then show ?thesis by (simp add: read_def)
next
  case False
  assume "apart s t" "cap s \<noteq> 0"
  with False have "ptr t \<noteq> ptr s" by (auto simp: apart_def)
  then show ?thesis by (simp add: read_def store_from_other)
qed

lemma length_read: "valid h s \<Longrightarrow> length (read h s) = len s"
  by (auto simp: valid_def read_def)

lemma read_nth: "valid h s \<Longrightarrow> i < len s \<Longrightarrow> read h s ! i = index h s i"
  by (auto simp: valid_def read_def index_def)

text \<open>Appending within the capacity, and storing a whole slice.\<close>

lemma read_store_from_end:
  assumes "valid h s" and "len s + length xs \<le> cap s" and "cap s \<noteq> 0"
  shows "read (store_from h s (len s) xs) (s\<lparr>len := len s + length xs\<rparr>) = read h s @ xs"
proof -
  let ?arr = "h ! ptr s"
  define A where "A = take (off s + len s) ?arr"
  define D where "D = drop (off s + len s + length xs) ?arr"
  from assms have p: "ptr s < length h" and b: "off s + cap s \<le> length ?arr"
    by (simp_all add: valid_def)
  with assms(2) have "store_from h s (len s) xs ! ptr s =
      take (off s + len s) ?arr @ xs @ drop (off s + len s + length xs) ?arr"
    by (intro store_from_self) simp_all
  then have e: "store_from h s (len s) xs ! ptr s = A @ xs @ D" by (simp add: A_def D_def)
  have lA: "length A = off s + len s" using assms(2) b by (simp add: A_def)
  have dA: "drop (off s) A = read h s" by (simp add: A_def read_def drop_take)
  have "read (store_from h s (len s) xs) (s\<lparr>len := len s + length xs\<rparr>) =
      take (len s + length xs) (drop (off s) (A @ xs @ D))"
    by (simp add: read_def e)
  also have "drop (off s) (A @ xs @ D) = drop (off s) A @ xs @ D" using lA by simp
  also have "take (len s + length xs) (drop (off s) A @ xs @ D) = drop (off s) A @ xs"
    using lA by simp
  finally show ?thesis by (simp add: dA)
qed

lemma read_store_from_all:
  assumes "valid h s" and "length xs = len s"
  shows "read (store_from h s 0 xs) s = xs"
proof (cases "cap s = 0")
  case True
  with assms show ?thesis by (simp add: valid_def read_def)
next
  case False
  let ?arr = "h ! ptr s"
  define A where "A = take (off s) ?arr"
  define D where "D = drop (off s + length xs) ?arr"
  from assms(1) False have p: "ptr s < length h" and b: "off s + cap s \<le> length ?arr"
    and l: "len s \<le> cap s"
    by (simp_all add: valid_def)
  with assms(2) have "store_from h s 0 xs ! ptr s =
      take (off s + 0) ?arr @ xs @ drop (off s + 0 + length xs) ?arr"
    by (intro store_from_self) simp_all
  then have e: "store_from h s 0 xs ! ptr s = A @ xs @ D" by (simp add: A_def D_def)
  have lA: "length A = off s" using b by (simp add: A_def)
  have "read (store_from h s 0 xs) s = take (len s) (drop (off s) (A @ xs @ D))"
    by (simp add: read_def e)
  also have "drop (off s) (A @ xs @ D) = xs @ D" using lA by simp
  also have "take (len s) (xs @ D) = xs" using assms(2) by simp
  finally show ?thesis .
qed


lemma read_store_from_other:
  assumes "valid h t" and "apart s t" and "cap s = 0 \<longrightarrow> vs = []"
  shows "read (store_from h s i vs) t = read h t"
proof (cases "cap s = 0")
  case True
  with assms(3) show ?thesis by simp
next
  case False
  from assms(2) False assms(1) show ?thesis by (rule read_store_from_apart)
qed

lemma read_store_other:
  "valid h t \<Longrightarrow> apart s t \<Longrightarrow> cap s \<noteq> 0 \<Longrightarrow> read (store h s i v) t = read h t"
  using read_store_from_other [of h t s "[v]" i] by simp

lemma valid_store: "valid h t \<Longrightarrow> valid (store h s i v) t"
  using valid_store_from [of h t s i "[v]"] by simp

lemma append_st_read:
  assumes "valid h s" and "append_st grow h s xs = (s', h')"
  shows "read h' s' = read h s @ xs" and "valid h' s'" and "len s' = len s + length xs"
proof -
  let ?n = "len s + length xs"
  show "len s' = len s + length xs"
    using assms(2) by (auto simp: append_st_def Let_def split: if_splits)
  show "read h' s' = read h s @ xs"
  proof (cases "?n \<le> cap s")
    case True
    with assms(2) have e: "s' = s\<lparr>len := ?n\<rparr>" "h' = store_from h s (len s) xs"
      by (auto simp: append_st_def)
    show ?thesis
    proof (cases "cap s = 0")
      case True
      with \<open>?n \<le> cap s\<close> have "xs = []" "len s = 0" by simp_all
      with e show ?thesis by (simp add: read_def)
    next
      case False
      with assms(1) True show ?thesis unfolding e by (rule read_store_from_end)
    qed
  next
    case False
    with assms(2) have "read h' s' = take ?n (read h s @ xs @
        replicate (max ?n (grow (cap s) ?n) - ?n) [])"
      by (auto simp: append_st_def Let_def read_def)
    then show ?thesis using length_read [OF assms(1)] by simp
  qed
  show "valid h' s'"
  proof (cases "?n \<le> cap s")
    case True
    with assms(2) have e: "s' = s\<lparr>len := ?n\<rparr>" "h' = store_from h s (len s) xs"
      by (auto simp: append_st_def)
    from assms(1) have "valid h' s" unfolding e by (rule valid_store_from)
    with True show ?thesis by (simp add: e(1) valid_def)
  next
    case False
    with assms(2) length_read [OF assms(1)] show ?thesis
      by (auto simp: append_st_def Let_def valid_def)
  qed
qed

lemma append_st_other:
  assumes "valid h t" and "apart s t" and "append_st grow h s xs = (s', h')"
  shows "read h' t = read h t" and "valid h' t" and "apart s' t"
proof -
  let ?n = "len s + length xs"
  have "read h' t = read h t \<and> valid h' t \<and> apart s' t"
  proof (cases "?n \<le> cap s")
    case True
    with assms(3) have e: "s' = s\<lparr>len := ?n\<rparr>" "h' = store_from h s (len s) xs"
      by (auto simp: append_st_def)
    from True have "cap s = 0 \<longrightarrow> xs = []" by auto
    with assms(1,2) have "read h' t = read h t" unfolding e by (rule read_store_from_other)
    moreover from assms(1) have "valid h' t" unfolding e by (rule valid_store_from)
    moreover from assms(2) have "apart s' t" by (simp add: e apart_def)
    ultimately show ?thesis by simp
  next
    case False
    with assms(3) obtain arr where e: "h' = h @ [arr]" "ptr s' = length h"
      by (auto simp: append_st_def Let_def)
    show ?thesis
    proof (cases "cap t = 0")
      case True
      with assms(1) show ?thesis by (simp add: valid_def read_def apart_def)
    next
      case False
      with assms(1) have "ptr t < length h" by (simp add: valid_def)
      with assms(1) e show ?thesis by (simp add: valid_def read_def apart_def nth_append)
    qed
  qed
  then show "read h' t = read h t" and "valid h' t" and "apart s' t" by simp_all
qed

lemma swap_st_other:
  assumes "valid h t" and "apart s t" and "cap s \<noteq> 0"
  shows "read (swap_st h s i j) t = read h t" and "valid (swap_st h s i j) t"
proof -
  show "read (swap_st h s i j) t = read h t"
    unfolding swap_st_def using assms by (simp add: read_store_other valid_store)
  show "valid (swap_st h s i j) t"
    unfolding swap_st_def using assms(1) by (intro valid_store)
qed

lemma swap_st_read:
  assumes "valid h s" and "i < len s" and "j < len s"
  shows "read (swap_st h s i j) s = swap i j (read h s)"
proof -
  let ?arr = "h ! ptr s"
  from assms have p: "ptr s < length h" and b: "off s + len s \<le> length ?arr"
    by (auto simp: valid_def)
  have "swap_st h s i j ! ptr s = ?arr[off s + i := ?arr ! (off s + j), off s + j := ?arr ! (off s + i)]"
    using p by (simp add: swap_st_def store_def index_def)
  then have "read (swap_st h s i j) s =
      (take (len s) (drop (off s) ?arr))[i := ?arr ! (off s + j), j := ?arr ! (off s + i)]"
    by (simp add: read_def drop_update_swap take_update_swap)
  also have "\<dots> = swap i j (read h s)"
    using assms(2,3) b by (simp add: swap_def read_def)
  finally show ?thesis .
qed

lemma length_Shuffle_from_st:
  "Shuffle_from_st i s g h = (h', g') \<Longrightarrow> length h' = length h"
proof (induction i arbitrary: g h)
  case 0
  then show ?case by simp
next
  case (Suc i)
  obtain j g1 where d: "Intn g (Suc i + 1) = (j, g1)" by (cases "Intn g (Suc i + 1)")
  with Suc.prems have "Shuffle_from_st i s g1 (swap_st h s (Suc i) j) = (h', g')" by simp
  from Suc.IH [OF this] show ?case by (simp add: length_swap_st)
qed

lemma Shuffle_from_st_read:
  "valid h s \<Longrightarrow> i < len s \<Longrightarrow> Shuffle_from_st i s g h = (h', g') \<Longrightarrow>
   Shuffle_from i g (read h s) = (read h' s, g') \<and> valid h' s \<and>
   (\<forall>t. valid h t \<and> apart s t \<longrightarrow> read h' t = read h t \<and> valid h' t)"
proof (induction i arbitrary: g h)
  case 0
  then show ?case by simp
next
  case (Suc i)
  obtain j g1 where d: "Intn g (Suc i + 1) = (j, g1)" by (cases "Intn g (Suc i + 1)")
  then have "j < Suc i + 1" by (rule Intn_less) simp
  with Suc.prems(2) have j: "j < len s" by simp
  let ?h1 = "swap_st h s (Suc i) j"
  from Suc.prems(1,2) have c: "cap s \<noteq> 0" by (auto simp: valid_def)
  have v1: "valid ?h1 s"
    unfolding swap_st_def using Suc.prems(1) by (intro valid_store)
  have r1: "read ?h1 s = swap (Suc i) j (read h s)"
    using Suc.prems(1,2) j by (rule swap_st_read)
  from Suc.prems(3) d have "Shuffle_from_st i s g1 ?h1 = (h', g')" by simp
  with v1 have ih: "Shuffle_from i g1 (read ?h1 s) = (read h' s, g') \<and> valid h' s \<and>
      (\<forall>t. valid ?h1 t \<and> apart s t \<longrightarrow> read h' t = read ?h1 t \<and> valid h' t)"
    using Suc.prems(2) by (intro Suc.IH) simp_all
  have "read h' t = read h t \<and> valid h' t" if "valid h t" "apart s t" for t
  proof -
    from swap_st_other [OF that c, of "Suc i" j]
    have "read ?h1 t = read h t" "valid ?h1 t" .
    moreover from ih this(2) that(2) have "read h' t = read ?h1 t \<and> valid h' t" by blast
    ultimately show ?thesis by simp
  qed
  with ih d r1 show ?case by simp
qed

lemma Shuffle_st_read:
  assumes "valid h s" and "Shuffle_st g h s = (h', g')"
  shows "Shuffle g (read h s) = (read h' s, g')" and "valid h' s"
    and "\<And>t. valid h t \<Longrightarrow> apart s t \<Longrightarrow> read h' t = read h t \<and> valid h' t"
proof -
  have "Shuffle g (read h s) = (read h' s, g') \<and> valid h' s \<and>
      (\<forall>t. valid h t \<and> apart s t \<longrightarrow> read h' t = read h t \<and> valid h' t)"
  proof (cases "len s = 0")
    case True
    with assms show ?thesis
      by (simp add: Shuffle_st_def Shuffle_def length_read)
  next
    case False
    from assms(2) have "Shuffle_from_st (len s - 1) s g h = (h', g')"
      by (simp add: Shuffle_st_def)
    with assms(1) have "Shuffle_from (len s - 1) g (read h s) = (read h' s, g') \<and> valid h' s \<and>
      (\<forall>t. valid h t \<and> apart s t \<longrightarrow> read h' t = read h t \<and> valid h' t)"
      using False by (intro Shuffle_from_st_read) simp_all
    then show ?thesis by (simp add: Shuffle_def length_read [OF assms(1)])
  qed
  then show "Shuffle g (read h s) = (read h' s, g')" and "valid h' s"
    and "\<And>t. valid h t \<Longrightarrow> apart s t \<Longrightarrow> read h' t = read h t \<and> valid h' t"
    by simp_all
qed

text \<open>Sorting in place; \<open>sort.Slice\<close> within its promise returns as many elements as it
  was given.\<close>

lemma store_whole_read:
  assumes "valid h s" and "length xs = len s"
  shows "read (store_from h s 0 (take (len s) xs)) s = xs"
    and "\<And>t. valid h t \<Longrightarrow> valid (store_from h s 0 (take (len s) xs)) t"
    and "\<And>t. valid h t \<Longrightarrow> apart s t \<Longrightarrow> read (store_from h s 0 (take (len s) xs)) t = read h t"
proof -
  from assms(2) have t: "take (len s) xs = xs" by simp
  show "read (store_from h s 0 (take (len s) xs)) s = xs"
    unfolding t using assms by (rule read_store_from_all)
  show "valid (store_from h s 0 (take (len s) xs)) t" if "valid h t" for t
    using that by (rule valid_store_from)
  show "read (store_from h s 0 (take (len s) xs)) t = read h t" if "valid h t" "apart s t" for t
  proof -
    from assms(1) have "cap s = 0 \<longrightarrow> take (len s) xs = []" by (simp add: valid_def)
    with that show ?thesis by (rule read_store_from_other)
  qed
qed

lemma sorts_by_length: "sorts_by srt lt \<Longrightarrow> length (srt lt xs) = length xs"
  by (metis sorts_by_def mset_eq_length)


text \<open>The steps of the loops keep the state in order, and change its contents as the
  steps of the loops on values do.\<close>

lemma apart_sym: "apart s t \<Longrightarrow> apart t s"
  by (auto simp: apart_def)

lemma valid_nil: "valid h nil"
  by (simp add: valid_def nil_def)

lemma apart_nil: "apart nil t"
  by (simp add: apart_def nil_def)

lemma read_nil: "read h nil = []"
  by (simp add: read_def nil_def)

lemma read_lookup_st: "read h (lookup_st all d) = lookup (contents h all) d"
  by (simp add: lookup_st_def lookup_def contents_def read_nil split: option.splits)

lemma valid_lookup_st: "in_order h all dirs \<Longrightarrow> valid h (lookup_st all d)"
  by (auto simp: in_order_def lookup_st_def valid_nil split: option.splits)

lemma step_append_dirs:
  assumes "in_order h all dirs" and "append_st grow h dirs [dir] = (dirs1, h1)"
  shows "in_order h1 all dirs1" and "contents h1 all = contents h all"
    and "read h1 dirs1 = read h dirs @ [dir]"
proof -
  from assms(1) have v: "valid h dirs" by (simp add: in_order_def)
  from append_st_read [OF v assms(2)]
  have r: "read h1 dirs1 = read h dirs @ [dir]" and v1: "valid h1 dirs1" by simp_all
  show "read h1 dirs1 = read h dirs @ [dir]" by (rule r)
  have o: "read h1 s = read h s \<and> valid h1 s \<and> apart s dirs1" if "all d = Some s" for d s
  proof -
    from assms(1) that have "valid h s" "apart dirs s"
      by (auto simp: in_order_def intro: apart_sym)
    from append_st_other [OF this assms(2)] show ?thesis by (simp add: apart_sym)
  qed
  then show "contents h1 all = contents h all"
    by (auto simp: contents_def fun_eq_iff map_option_case split: option.splits)
  from assms(1) v1 o show "in_order h1 all dirs1"
    unfolding in_order_def by blast
qed

lemma step_append_group:
  assumes "in_order h all dirs" and "append_st grow h (lookup_st all dir) [l] = (thisDir, h2)"
  shows "in_order h2 (all(dir \<mapsto> thisDir)) dirs"
    and "contents h2 (all(dir \<mapsto> thisDir)) =
         (contents h all)(dir \<mapsto> lookup (contents h all) dir @ [l])"
    and "read h2 dirs = read h dirs"
proof -
  let ?s0 = "lookup_st all dir"
  from assms(1) have v0: "valid h ?s0" by (rule valid_lookup_st)
  from append_st_read [OF v0 assms(2)]
  have r: "read h2 thisDir = lookup (contents h all) dir @ [l]" and v2: "valid h2 thisDir"
    by (simp_all add: read_lookup_st)
  have a0: "apart ?s0 dirs"
    using assms(1) by (auto simp: in_order_def lookup_st_def apart_nil split: option.splits)
  from assms(1) have "valid h dirs" by (simp add: in_order_def)
  from append_st_other [OF this a0 assms(2)]
  have d: "read h2 dirs = read h dirs" "valid h2 dirs" "apart thisDir dirs" .
  show "read h2 dirs = read h dirs" by (rule d(1))
  have o: "read h2 s = read h s \<and> valid h2 s \<and> apart thisDir s \<and> apart s dirs"
    if "all d' = Some s" "d' \<noteq> dir" for d' s
  proof -
    from assms(1) that have vs: "valid h s" and ad: "apart s dirs" by (auto simp: in_order_def)
    have "apart ?s0 s"
    proof (cases "all dir")
      case None
      then show ?thesis by (simp add: lookup_st_def apart_nil)
    next
      case (Some s0)
      with assms(1) that show ?thesis by (auto simp: in_order_def lookup_st_def)
    qed
    from append_st_other [OF vs this assms(2)] ad show ?thesis by simp
  qed
  show "contents h2 (all(dir \<mapsto> thisDir)) =
         (contents h all)(dir \<mapsto> lookup (contents h all) dir @ [l])"
  proof
    fix d'
    show "contents h2 (all(dir \<mapsto> thisDir)) d' =
         ((contents h all)(dir \<mapsto> lookup (contents h all) dir @ [l])) d'"
    proof (cases "d' = dir")
      case True
      then show ?thesis by (simp add: contents_def r)
    next
      case False
      then show ?thesis using o [of d'] by (cases "all d'") (simp_all add: contents_def)
    qed
  qed
  show "in_order h2 (all(dir \<mapsto> thisDir)) dirs"
    unfolding in_order_def
  proof (intro conjI allI impI)
    show "valid h2 dirs" by (rule d(2))
  next
    fix d' s
    assume "(all(dir \<mapsto> thisDir)) d' = Some s"
    then show "valid h2 s" "apart s dirs"
      using v2 d(3) o [of d' s] by (auto split: if_splits)
  next
    fix d' d'' s s'
    assume "(all(dir \<mapsto> thisDir)) d' = Some s" "(all(dir \<mapsto> thisDir)) d'' = Some s'"
      "d' \<noteq> d''"
    then show "apart s s'"
      using o [of d' s] o [of d'' s'] assms(1)
      by (auto simp: in_order_def split: if_splits intro: apart_sym)
  qed
qed

lemma step_in_place:
  assumes "in_order h all dirs" and "all dir = Some s" and "valid h1 s"
    and "\<And>t. valid h t \<Longrightarrow> apart s t \<Longrightarrow> read h1 t = read h t \<and> valid h1 t"
  shows "in_order h1 all dirs" and "contents h1 all = (contents h all)(dir \<mapsto> read h1 s)"
    and "read h1 dirs = read h dirs"
proof -
  from assms(1,2) have "valid h dirs" "apart s dirs" by (auto simp: in_order_def)
  from assms(4) [OF this] have d: "read h1 dirs = read h dirs" and vd: "valid h1 dirs"
    by simp_all
  show "read h1 dirs = read h dirs" by (rule d)
  have o: "read h1 s' = read h s' \<and> valid h1 s'" if "all d' = Some s'" "d' \<noteq> dir" for d' s'
  proof -
    from assms(1,2) that have "valid h s'" "apart s s'" by (auto simp: in_order_def)
    then show ?thesis by (rule assms(4))
  qed
  show "contents h1 all = (contents h all)(dir \<mapsto> read h1 s)"
  proof
    fix d'
    show "contents h1 all d' = ((contents h all)(dir \<mapsto> read h1 s)) d'"
    proof (cases "d' = dir")
      case True
      with assms(2) show ?thesis by (simp add: contents_def)
    next
      case False
      then show ?thesis using o [of d'] by (cases "all d'") (simp_all add: contents_def)
    qed
  qed
  show "in_order h1 all dirs"
    unfolding in_order_def
  proof (intro conjI allI impI)
    show "valid h1 dirs" by (rule vd)
  next
    fix d' s'
    assume a: "all d' = Some s'"
    with assms(1) show "apart s' dirs" by (simp add: in_order_def)
    from a assms(2,3) o [of d' s'] show "valid h1 s'" by (cases "d' = dir") simp_all
  next
    fix d' d'' s' s''
    assume "all d' = Some s'" "all d'' = Some s''" "d' \<noteq> d''"
    with assms(1) show "apart s' s''" unfolding in_order_def by blast
  qed
qed


lemma step_dirs_in_place:
  assumes "in_order h all dirs" and "valid h1 dirs"
    and "\<And>t. valid h t \<Longrightarrow> apart dirs t \<Longrightarrow> read h1 t = read h t \<and> valid h1 t"
  shows "in_order h1 all dirs" and "contents h1 all = contents h all"
proof -
  have o: "read h1 s = read h s \<and> valid h1 s" if "all d = Some s" for d s
  proof -
    from assms(1) that have "valid h s" "apart dirs s"
      by (auto simp: in_order_def intro: apart_sym)
    then show ?thesis by (rule assms(3))
  qed
  then show "contents h1 all = contents h all"
    by (auto simp: contents_def fun_eq_iff map_option_case split: option.splits)
  from assms(1,2) o show "in_order h1 all dirs" unfolding in_order_def by blast
qed

lemma frame_length: "take (length h0) h = h0 \<Longrightarrow> length h0 \<le> length h"
  by (metis length_take min.cobounded1)

lemma valid_frame:
  assumes "valid h s" and "take (length h) h' = h"
  shows "valid h' s"
proof (cases "cap s = 0")
  case True
  with assms(1) show ?thesis by (simp add: valid_def)
next
  case False
  with assms(1) have p: "ptr s < length h" by (simp add: valid_def)
  with assms(2) have "h' ! ptr s = h ! ptr s" by (metis nth_take)
  with assms(1) p frame_length [OF assms(2)] show ?thesis by (auto simp: valid_def)
qed

lemma index_frame:
  assumes "valid h s" and "take (length h) h' = h" and "i < len s"
  shows "index h' s i = read h s ! i"
proof -
  from assms(1,2) have "valid h' s" by (rule valid_frame)
  then have "index h' s i = read h' s ! i" using assms(3) by (simp add: read_nth)
  with read_frame [OF assms(1,2)] show ?thesis by simp
qed

text \<open>The first loop.\<close>

lemma group_loop_st_refines:
  assumes "valid h0 locations" and "set is \<subseteq> {..<len locations}"
    and "take (length h0) h = h0" and "fresh (length h0) dirs"
    and "\<forall>d s. all d = Some s \<longrightarrow> fresh (length h0) s" and "in_order h all dirs"
  shows "case group_loop_st grow locations is (h, all, dirs) of
      Inl e \<Rightarrow>
        group_loop (map ((!) (read h0 locations)) is) (contents h all, read h dirs) = Inl e
    | Inr (h', all', dirs') \<Rightarrow>
        group_loop (map ((!) (read h0 locations)) is) (contents h all, read h dirs) =
          Inr (contents h' all', read h' dirs') \<and> in_order h' all' dirs'"
  using assms(2-)
proof (induction "is" arbitrary: h all dirs)
  case Nil
  then show ?case by simp
next
  case (Cons i "is")
  let ?n = "length h0"
  let ?l = "index h locations i"
  from Cons.prems(1) have i: "i < len locations" and "is": "set is \<subseteq> {..<len locations}"
    by simp_all
  from assms(1) Cons.prems(2) i have l: "?l = read h0 locations ! i" by (rule index_frame)
  from Cons.prems(2) have n: "?n \<le> length h" by (rule frame_length)
  show ?case
  proof (cases "Split ?l")
    case (Inl e)
    then show ?thesis by (simp add: l [symmetric])
  next
    case (Inr k)
    obtain dir leaf where k: "k = (dir, leaf)" by (cases k)
    obtain dirs1 h1 where a1:
      "(if all dir = None then append_st grow h dirs [dir] else (dirs, h)) = (dirs1, h1)"
      by (cases "if all dir = None then append_st grow h dirs [dir] else (dirs, h)")
    obtain thisDir h2 where a2: "append_st grow h1 (lookup_st all dir) [?l] = (thisDir, h2)"
      by (cases "append_st grow h1 (lookup_st all dir) [?l]")
    have s1: "in_order h1 all dirs1 \<and> contents h1 all = contents h all \<and>
        read h1 dirs1 = (if all dir = None then read h dirs @ [dir] else read h dirs) \<and>
        take ?n h1 = h0 \<and> ?n \<le> length h1 \<and> fresh ?n dirs1"
    proof (cases "all dir = None")
      case True
      with a1 have a: "append_st grow h dirs [dir] = (dirs1, h1)" by simp
      from step_append_dirs [OF Cons.prems(5) a] append_st_frame [OF Cons.prems(3) n a]
        Cons.prems(2) n True
      show ?thesis by simp
    next
      case False
      with a1 Cons.prems n show ?thesis by simp
    qed
    then have o1: "in_order h1 all dirs1" and n1: "?n \<le> length h1" by simp_all
    have "fresh ?n (lookup_st all dir)" using Cons.prems(4) by (rule fresh_lookup_st)
    from append_st_frame [OF this n1 a2] s1
    have f2: "take ?n h2 = h0" "fresh ?n thisDir" by simp_all
    from step_append_group [OF o1 a2] s1
    have s2: "in_order h2 (all(dir \<mapsto> thisDir)) dirs1"
      "contents h2 (all(dir \<mapsto> thisDir)) =
         (contents h all)(dir \<mapsto> lookup (contents h all) dir @ [?l])"
      "read h2 dirs1 = (if all dir = None then read h dirs @ [dir] else read h dirs)"
      by simp_all
    have fa: "\<forall>d s. (all(dir \<mapsto> thisDir)) d = Some s \<longrightarrow> fresh ?n s"
      using Cons.prems(4) f2(2) by simp
    have c: "contents h all dir = None \<longleftrightarrow> all dir = None" by (simp add: contents_def)
    have st: "group_loop_st grow locations (i # is) (h, all, dirs) =
        group_loop_st grow locations is (h2, all(dir \<mapsto> thisDir), dirs1)"
      using Inr k a1 a2 by simp
    have "group_loop (map ((!) (read h0 locations)) (i # is)) (contents h all, read h dirs) =
        group_loop (map ((!) (read h0 locations)) is)
          ((contents h all)(dir \<mapsto> lookup (contents h all) dir @ [?l]),
           if all dir = None then read h dirs @ [dir] else read h dirs)"
      using Inr k by (simp add: l [symmetric] c)
    also have "\<dots> = group_loop (map ((!) (read h0 locations)) is)
          (contents h2 (all(dir \<mapsto> thisDir)), read h2 dirs1)"
      by (simp only: s2(2,3))
    finally have vl: "group_loop (map ((!) (read h0 locations)) (i # is))
          (contents h all, read h dirs) =
        group_loop (map ((!) (read h0 locations)) is)
          (contents h2 (all(dir \<mapsto> thisDir)), read h2 dirs1)" .
    from s1 have fd: "fresh ?n dirs1" by simp
    from Cons.IH [OF "is" f2(1) fd fa s2(1)]
    show ?thesis unfolding st vl .
  qed
qed


text \<open>The loops over the directories.\<close>

lemma Shuffle_st_nil: "Shuffle_st g h nil = (h, g)"
  by (simp add: Shuffle_st_def nil_def)

lemma sort_Slice_st_nil: "sort_Slice_st srt h nil = h"
  by (simp add: sort_Slice_st_def nil_def)

lemma shuffle_in_dirs_st_refines:
  assumes "in_order h all dirs" and "set is \<subseteq> {..<len dirs}"
    and "shuffle_in_dirs_st dirs is all (h, g) = (h', g')"
  shows "shuffle_in_dirs (map ((!) (read h dirs)) is) (contents h all) g = (contents h' all, g') \<and>
    in_order h' all dirs \<and> read h' dirs = read h dirs"
  using assms
proof (induction "is" arbitrary: h g)
  case Nil
  then show ?case by simp
next
  case (Cons i "is")
  from Cons.prems(2) have i: "i < len dirs" and "is": "set is \<subseteq> {..<len dirs}" by simp_all
  from Cons.prems(1) have vd: "valid h dirs" by (simp add: in_order_def)
  let ?dir = "index h dirs i"
  from vd i have dir: "read h dirs ! i = ?dir" by (rule read_nth)
  show ?case
  proof (cases "all ?dir")
    case None
    then have "lookup_st all ?dir = nil" by (simp add: lookup_st_def)
    with Cons.prems(3) have "shuffle_in_dirs_st dirs is all (h, g) = (h', g')"
      by (simp add: Shuffle_st_nil)
    from Cons.IH [OF Cons.prems(1) "is" this] None show ?thesis
      by (simp add: dir contents_def)
  next
    case (Some s)
    then have ls: "lookup_st all ?dir = s" by (simp add: lookup_st_def)
    from Cons.prems(1) Some have vs: "valid h s" by (auto simp: in_order_def)
    obtain h1 g1 where sh: "Shuffle_st g h s = (h1, g1)" by (cases "Shuffle_st g h s")
    note r = Shuffle_st_read [OF vs sh]
    from step_in_place [OF Cons.prems(1) Some r(2) r(3)]
    have o1: "in_order h1 all dirs" and c1: "contents h1 all = (contents h all)(?dir \<mapsto> read h1 s)"
      and d1: "read h1 dirs = read h dirs"
      by simp_all
    from Cons.prems(3) ls sh have "shuffle_in_dirs_st dirs is all (h1, g1) = (h', g')" by simp
    note ih = Cons.IH [OF o1 "is" this, unfolded c1 d1]
    have "contents h all ?dir = Some (read h s)" using Some by (simp add: contents_def)
    with r(1) have "shuffle_in_dirs (map ((!) (read h dirs)) (i # is)) (contents h all) g =
        shuffle_in_dirs (map ((!) (read h dirs)) is) ((contents h all)(?dir \<mapsto> read h1 s)) g1"
      by (simp add: dir)
    with ih show ?thesis by (simp only:)
  qed
qed

lemma sort_in_dirs_st_refines:
  assumes "sorts_by srt less_file" and "in_order h all dirs" and "set is \<subseteq> {..<len dirs}"
  shows "sort_in_dirs srt (map ((!) (read h dirs)) is) (contents h all) =
      contents (sort_in_dirs_st srt dirs is all h) all \<and>
    in_order (sort_in_dirs_st srt dirs is all h) all dirs \<and>
    read (sort_in_dirs_st srt dirs is all h) dirs = read h dirs"
  using assms(2-)
proof (induction "is" arbitrary: h)
  case Nil
  then show ?case by simp
next
  case (Cons i "is")
  from Cons.prems(2) have i: "i < len dirs" and "is": "set is \<subseteq> {..<len dirs}" by simp_all
  from Cons.prems(1) have vd: "valid h dirs" by (simp add: in_order_def)
  let ?dir = "index h dirs i"
  from vd i have dir: "read h dirs ! i = ?dir" by (rule read_nth)
  show ?case
  proof (cases "all ?dir")
    case None
    then have "lookup_st all ?dir = nil" by (simp add: lookup_st_def)
    then have "sort_in_dirs_st srt dirs (i # is) all h = sort_in_dirs_st srt dirs is all h"
      by (simp add: sort_Slice_st_nil)
    with Cons.IH [OF Cons.prems(1) "is"] None show ?thesis
      by (simp add: dir contents_def)
  next
    case (Some s)
    then have ls: "lookup_st all ?dir = s" by (simp add: lookup_st_def)
    from Cons.prems(1) Some have vs: "valid h s" by (auto simp: in_order_def)
    let ?xs = "srt less_file (read h s)"
    let ?h1 = "sort_Slice_st srt h s"
    have "length ?xs = len s"
      using sorts_by_length [OF assms(1)] length_read [OF vs] by simp
    note r = store_whole_read [OF vs this]
    have r1: "read ?h1 s = ?xs" and v1: "valid ?h1 s"
      and o: "\<And>t. valid h t \<Longrightarrow> apart s t \<Longrightarrow> read ?h1 t = read h t \<and> valid ?h1 t"
      unfolding sort_Slice_st_def using r vs by simp_all
    from step_in_place [OF Cons.prems(1) Some v1 o]
    have o1: "in_order ?h1 all dirs" and c1: "contents ?h1 all = (contents h all)(?dir \<mapsto> ?xs)"
      and d1: "read ?h1 dirs = read h dirs"
      by (simp_all add: r1)
    have e: "sort_in_dirs_st srt dirs (i # is) all h = sort_in_dirs_st srt dirs is all ?h1"
      by (simp add: ls)
    note ih = Cons.IH [OF o1 "is", unfolded c1 d1]
    have "contents h all ?dir = Some (read h s)" using Some by (simp add: contents_def)
    then have "sort_in_dirs srt (map ((!) (read h dirs)) (i # is)) (contents h all) =
        sort_in_dirs srt (map ((!) (read h dirs)) is) ((contents h all)(?dir \<mapsto> ?xs))"
      by (simp add: dir)
    with ih show ?thesis unfolding e by (simp only:)
  qed
qed

text \<open>The loop that flattens.\<close>

lemma flatten_st_refines:
  assumes "in_order hs all dirs" and "set is \<subseteq> {..<len dirs}"
    and "take (length hs) h = hs" and "valid h result" and "fresh (length hs) result"
    and "flatten_st grow dirs is all (result, h) = (result', h')"
  shows "read h' result' =
      read h result @ concat (map (\<lambda>i. lookup (contents hs all) (read hs dirs ! i)) is) \<and>
    valid h' result'"
  using assms(2-)
proof (induction "is" arbitrary: h result)
  case Nil
  then show ?case by simp
next
  case (Cons i "is")
  let ?n = "length hs"
  from Cons.prems(1) have i: "i < len dirs" and "is": "set is \<subseteq> {..<len dirs}" by simp_all
  from assms(1) have vd: "valid hs dirs" by (simp add: in_order_def)
  let ?dir = "index h dirs i"
  from vd Cons.prems(2) i have dir: "?dir = read hs dirs ! i" by (rule index_frame)
  let ?xs = "read h (lookup_st all ?dir)"
  have "valid hs (lookup_st all ?dir)" using assms(1) by (rule valid_lookup_st)
  from read_frame [OF this Cons.prems(2)]
  have xs: "?xs = lookup (contents hs all) ?dir" by (simp add: read_lookup_st)
  obtain r1 h1 where a: "append_st grow h result ?xs = (r1, h1)"
    by (cases "append_st grow h result ?xs")
  from Cons.prems(2) have n: "?n \<le> length h" by (rule frame_length)
  from append_st_frame [OF Cons.prems(4) n a] Cons.prems(2)
  have f: "take ?n h1 = hs" "fresh ?n r1" by simp_all
  from append_st_read [OF Cons.prems(3) a]
  have r: "read h1 r1 = read h result @ ?xs" "valid h1 r1" by simp_all
  from Cons.prems(5) a have "flatten_st grow dirs is all (r1, h1) = (result', h')" by simp
  from Cons.IH [OF "is" f(1) r(2) f(2) this]
  have "read h' result' = (read h result @ ?xs) @
      concat (map (\<lambda>i. lookup (contents hs all) (read hs dirs ! i)) is)"
    and v: "valid h' result'"
    by (simp_all only: r(1))
  moreover have "?xs = lookup (contents hs all) (read hs dirs ! i)"
    using xs by (simp only: dir)
  ultimately show ?case by simp
qed


text \<open>The phases of \<open>shuffle\<close>, and the whole.\<close>

lemma map_nth_read: "valid h s \<Longrightarrow> map ((!) (read h s)) [0..<len s] = read h s"
  using map_nth [of "read h s"] by (simp add: length_read)

lemma dirs_phase_refines:
  assumes "in_order h1 all dirs"
    and "(if shuffleDirs then Shuffle_st rnd h1 dirs else (sort_Strings_st h1 dirs, rnd)) = (h2, rnd1)"
  shows "(if shuffleDirs then Shuffle rnd (read h1 dirs) else (sort_Strings (read h1 dirs), rnd)) =
      (read h2 dirs, rnd1)"
    and "in_order h2 all dirs" and "contents h2 all = contents h1 all"
proof -
  from assms(1) have vd: "valid h1 dirs" by (simp add: in_order_def)
  have "(if shuffleDirs then Shuffle rnd (read h1 dirs) else (sort_Strings (read h1 dirs), rnd)) =
      (read h2 dirs, rnd1) \<and> in_order h2 all dirs \<and> contents h2 all = contents h1 all"
  proof (cases shuffleDirs)
    case True
    with assms(2) have sh: "Shuffle_st rnd h1 dirs = (h2, rnd1)" by simp
    note r = Shuffle_st_read [OF vd sh]
    from step_dirs_in_place [OF assms(1) r(2) r(3)] r(1) True show ?thesis by simp
  next
    case False
    with assms(2) have e: "h2 = sort_Strings_st h1 dirs" "rnd1 = rnd" by simp_all
    have "length (sort (read h1 dirs)) = len dirs" by (simp add: length_read [OF vd])
    note r = store_whole_read [OF vd this]
    have r1: "read h2 dirs = sort (read h1 dirs)" and v1: "valid h2 dirs"
      and o: "\<And>t. valid h1 t \<Longrightarrow> apart dirs t \<Longrightarrow> read h2 t = read h1 t \<and> valid h2 t"
      unfolding e sort_Strings_st_def using r vd by simp_all
    from step_dirs_in_place [OF assms(1) v1 o] r1 e(2) False show ?thesis
      by (simp add: sort_Strings_def)
  qed
  then show "(if shuffleDirs then Shuffle rnd (read h1 dirs)
      else (sort_Strings (read h1 dirs), rnd)) = (read h2 dirs, rnd1)"
    and "in_order h2 all dirs" and "contents h2 all = contents h1 all"
    by simp_all
qed

lemma in_dirs_phase_refines:
  assumes "sorts_by srt less_file" and "in_order h2 all dirs"
    and "(if shuffleInDir then shuffle_in_dirs_st dirs [0..<len dirs] all (h2, rnd1)
          else (sort_in_dirs_st srt dirs [0..<len dirs] all h2, rnd1)) = (h3, rnd2)"
  shows "(if shuffleInDir then shuffle_in_dirs (read h2 dirs) (contents h2 all) rnd1
          else (sort_in_dirs srt (read h2 dirs) (contents h2 all), rnd1)) = (contents h3 all, rnd2)"
    and "in_order h3 all dirs" and "read h3 dirs = read h2 dirs"
proof -
  from assms(2) have vd: "valid h2 dirs" by (simp add: in_order_def)
  have sub: "set [0..<len dirs] \<subseteq> {..<len dirs}" by auto
  have "(if shuffleInDir then shuffle_in_dirs (read h2 dirs) (contents h2 all) rnd1
          else (sort_in_dirs srt (read h2 dirs) (contents h2 all), rnd1)) = (contents h3 all, rnd2) \<and>
      in_order h3 all dirs \<and> read h3 dirs = read h2 dirs"
  proof (cases shuffleInDir)
    case True
    with assms(3) have "shuffle_in_dirs_st dirs [0..<len dirs] all (h2, rnd1) = (h3, rnd2)" by simp
    from shuffle_in_dirs_st_refines [OF assms(2) sub this] True show ?thesis
      by (simp add: map_nth_read [OF vd])
  next
    case False
    with assms(3) have e: "h3 = sort_in_dirs_st srt dirs [0..<len dirs] all h2" "rnd2 = rnd1"
      by simp_all
    from sort_in_dirs_st_refines [OF assms(1,2) sub] False show ?thesis
      by (simp add: map_nth_read [OF vd] e)
  qed
  then show "(if shuffleInDir then shuffle_in_dirs (read h2 dirs) (contents h2 all) rnd1
          else (sort_in_dirs srt (read h2 dirs) (contents h2 all), rnd1)) = (contents h3 all, rnd2)"
    and "in_order h3 all dirs" and "read h3 dirs = read h2 dirs"
    by simp_all
qed

lemma flatten_phase_refines:
  assumes "in_order h3 all dirs"
    and "flatten_st grow dirs [0..<len dirs] all (nil, h3) = (res, h4)"
  shows "read h4 res = concat (map (lookup (contents h3 all)) (read h3 dirs))" and "valid h4 res"
proof -
  from assms(1) have vd: "valid h3 dirs" by (simp add: in_order_def)
  have sub: "set [0..<len dirs] \<subseteq> {..<len dirs}" by auto
  from flatten_st_refines [OF assms(1) sub _ valid_nil fresh_nil assms(2)]
  have r: "read h4 res =
      concat (map (\<lambda>i. lookup (contents h3 all) (read h3 dirs ! i)) [0..<len dirs])"
    and v: "valid h4 res"
    by (simp_all add: read_nil)
  have "map (\<lambda>i. lookup (contents h3 all) (read h3 dirs ! i)) [0..<len dirs] =
      map (lookup (contents h3 all)) (map ((!) (read h3 dirs)) [0..<len dirs])"
    by simp
  with r show "read h4 res = concat (map (lookup (contents h3 all)) (read h3 dirs))"
    by (simp only: map_nth_read [OF vd])
  show "valid h4 res" by (rule v)
qed

lemma in_order_start: "in_order h Map.empty nil"
  by (simp add: in_order_def valid_nil)

lemma contents_empty: "contents h Map.empty = Map.empty"
  by (simp add: contents_def)

text \<open>
  \<open>shuffle\<close> on the store returns what \<open>shuffle\<close> on values returns for the contents of
  the caller's slice, in the slice \<open>result\<close>, and fails where that fails.
\<close>

lemma shuffle_st_refines:
  assumes "sorts_by srt less_file" and "valid h locations"
  shows "map_sum id (\<lambda>(result, h', rnd'). (read h' result, rnd'))
      (shuffle_st srt grow rnd h locations shuffleDirs shuffleInDir) =
    shuffle srt rnd (read h locations) shuffleDirs shuffleInDir"
proof -
  have sub: "set [0..<len locations] \<subseteq> {..<len locations}" by auto
  have "take (length h) h = h" and "\<forall>d s. Map.empty d = Some s \<longrightarrow> fresh (length h) s"
    by simp_all
  note g = group_loop_st_refines [OF assms(2) sub this(1) fresh_nil this(2) in_order_start,
      unfolded contents_empty read_nil map_nth_read [OF assms(2)]]
  show ?thesis
  proof (cases "group_loop_st grow locations [0..<len locations] (h, Map.empty, nil)")
    case (Inl e)
    with g [of grow] have "group_loop (read h locations) (Map.empty, []) = Inl e" by simp
    with Inl show ?thesis by (simp add: shuffle_st_def shuffle_def)
  next
    case (Inr st)
    obtain h1 all dirs where st: "st = (h1, all, dirs)" by (cases st)
    from g [of grow] Inr st have vg: "group_loop (read h locations) (Map.empty, []) =
        Inr (contents h1 all, read h1 dirs)" and o1: "in_order h1 all dirs"
      by simp_all
    obtain h2 rnd1 where d:
      "(if shuffleDirs then Shuffle_st rnd h1 dirs else (sort_Strings_st h1 dirs, rnd)) = (h2, rnd1)"
      by (cases "if shuffleDirs then Shuffle_st rnd h1 dirs else (sort_Strings_st h1 dirs, rnd)")
    obtain h3 rnd2 where i:
      "(if shuffleInDir then shuffle_in_dirs_st dirs [0..<len dirs] all (h2, rnd1)
        else (sort_in_dirs_st srt dirs [0..<len dirs] all h2, rnd1)) = (h3, rnd2)"
      by (cases "if shuffleInDir then shuffle_in_dirs_st dirs [0..<len dirs] all (h2, rnd1)
        else (sort_in_dirs_st srt dirs [0..<len dirs] all h2, rnd1)")
    obtain res h4 where f: "flatten_st grow dirs [0..<len dirs] all (nil, h3) = (res, h4)"
      by (cases "flatten_st grow dirs [0..<len dirs] all (nil, h3)")
    note p1 = dirs_phase_refines [OF o1 d]
    note p2 = in_dirs_phase_refines [OF assms(1) p1(2) i]
    note p3 = flatten_phase_refines [OF p2(2) f]
    have q: "(if shuffleInDir then shuffle_in_dirs (read h2 dirs) (contents h1 all) rnd1
          else (sort_in_dirs srt (read h2 dirs) (contents h1 all), rnd1)) = (contents h3 all, rnd2)"
      using p2(1) by (simp only: p1(3))
    have "reorder srt rnd (contents h1 all) (read h1 dirs) shuffleDirs shuffleInDir =
        (read h4 res, rnd2)"
      by (simp only: reorder_def p1(1) prod.case q p3(1) p2(3))
    moreover have "length (read h4 res) = len res" using p3(2) by (rule length_read)
    moreover have "length (read h locations) = len locations" using assms(2) by (rule length_read)
    ultimately show ?thesis
      using Inr st d i f vg by (simp add: shuffle_st_def shuffle_def)
  qed
qed


section \<open>The effects of \<open>shuffle\<close>\<close>

text \<open>The random source is only drawn from: what is left of it is a rest of what it was.\<close>

lemma Intn_rest: "Intn g n = (j, g') \<Longrightarrow> g' = drop 1 g"
  by (auto simp: Intn_def split: list.splits)

lemma Shuffle_from_rest: "Shuffle_from i g xs = (ys, g') \<Longrightarrow> g' = drop i g"
proof (induction i arbitrary: g xs)
  case 0
  then show ?case by simp
next
  case (Suc i)
  obtain j g1 where d: "Intn g (Suc i + 1) = (j, g1)" by (cases "Intn g (Suc i + 1)")
  with Suc.prems have "Shuffle_from i g1 (swap (Suc i) j xs) = (ys, g')" by simp
  from Suc.IH [OF this] Intn_rest [OF d] show ?case by simp
qed

lemma Shuffle_rest: "Shuffle g xs = (ys, g') \<Longrightarrow> \<exists>k. g' = drop k g"
  unfolding Shuffle_def by (blast dest: Shuffle_from_rest)

lemma shuffle_in_dirs_rest: "shuffle_in_dirs ds all g = (all', g') \<Longrightarrow> \<exists>k. g' = drop k g"
proof (induction ds arbitrary: all g)
  case Nil
  then have "g' = drop 0 g" by simp
  then show ?case by blast
next
  case (Cons dir ds)
  show ?case
  proof (cases "all dir")
    case None
    with Cons.prems have "shuffle_in_dirs ds all g = (all', g')" by simp
    then show ?thesis by (rule Cons.IH)
  next
    case (Some thisDir)
    obtain thisDir' g1 where s: "Shuffle g thisDir = (thisDir', g1)"
      by (cases "Shuffle g thisDir")
    with Cons.prems Some have "shuffle_in_dirs ds (all(dir \<mapsto> thisDir')) g1 = (all', g')"
      by simp
    from Cons.IH [OF this] Shuffle_rest [OF s] obtain k k' where "g' = drop k (drop k' g)"
      by blast
    then have "g' = drop (k + k') g" by simp
    then show ?thesis by blast
  qed
qed

lemma reorder_rest:
  assumes "reorder srt rnd all dirs shuffleDirs shuffleInDir = (result, rnd')"
  shows "\<exists>k. rnd' = drop k rnd"
proof -
  obtain dirs1 rnd1 where d1:
    "(if shuffleDirs then Shuffle rnd dirs else (sort_Strings dirs, rnd)) = (dirs1, rnd1)"
    by (cases "if shuffleDirs then Shuffle rnd dirs else (sort_Strings dirs, rnd)")
  obtain all2 rnd2 where a2:
    "(if shuffleInDir then shuffle_in_dirs dirs1 all rnd1
      else (sort_in_dirs srt dirs1 all, rnd1)) = (all2, rnd2)"
    by (cases "if shuffleInDir then shuffle_in_dirs dirs1 all rnd1
      else (sort_in_dirs srt dirs1 all, rnd1)")
  from assms d1 a2 have r: "rnd' = rnd2" by (simp add: reorder_def)
  have "\<exists>k. rnd1 = drop k rnd"
  proof (cases shuffleDirs)
    case True
    with d1 show ?thesis by (auto dest: Shuffle_rest)
  next
    case False
    with d1 have "rnd1 = drop 0 rnd" by simp
    then show ?thesis by blast
  qed
  moreover have "\<exists>k. rnd2 = drop k rnd1"
  proof (cases shuffleInDir)
    case True
    with a2 show ?thesis by (auto dest: shuffle_in_dirs_rest)
  next
    case False
    with a2 have "rnd2 = drop 0 rnd1" by simp
    then show ?thesis by blast
  qed
  ultimately obtain k k' where "rnd2 = drop k (drop k' rnd)" by blast
  then have "rnd2 = drop (k + k') rnd" by simp
  with r show ?thesis by blast
qed

lemma shuffle_rest:
  "shuffle srt rnd locations shuffleDirs shuffleInDir = Inr (out, rnd') \<Longrightarrow> \<exists>k. rnd' = drop k rnd"
  by (auto simp: shuffle_def split: sum.splits prod.splits if_splits dest: reorder_rest)

lemma shuffle_no_draw:
  "shuffle srt rnd locations False False = Inr (out, rnd') \<Longrightarrow> rnd' = rnd"
  by (auto simp: shuffle_def reorder_no_shuffle split: sum.splits if_splits)

text \<open>
  Claim C8. \<open>shuffle\<close> is pure but for the random source. Whenever it returns, every
  array that was in the store before the call is as it was, so the caller's slice of
  locations has its contents unchanged; the slice it returns is a new one, on no array
  of before the call, and holds the sequence that the function on values computes; what
  is left of the random source is a rest of what it was, and all of it when both flags
  are false. It returns for every slice of well-formed locations.
\<close>

theorem shuffle_st_effects:
  assumes "sorts_by srt less_file" and "valid h locations"
  shows "(\<forall>result h' rnd'.
            shuffle_st srt grow rnd h locations shuffleDirs shuffleInDir = Inr (result, h', rnd') \<longrightarrow>
              take (length h) h' = h \<and> read h' locations = read h locations \<and>
              fresh (length h) result \<and>
              shuffle srt rnd (read h locations) shuffleDirs shuffleInDir =
                Inr (read h' result, rnd') \<and>
              (\<exists>k. rnd' = drop k rnd) \<and>
              (\<not> shuffleDirs \<and> \<not> shuffleInDir \<longrightarrow> rnd' = rnd)) \<and>
         (list_all well_formed (read h locations) \<longrightarrow>
            (\<exists>result h' rnd'.
               shuffle_st srt grow rnd h locations shuffleDirs shuffleInDir = Inr (result, h', rnd')))"
proof (intro conjI allI impI)
  fix result h' rnd'
  assume s: "shuffle_st srt grow rnd h locations shuffleDirs shuffleInDir = Inr (result, h', rnd')"
  from shuffle_st_frame [OF s] show f: "take (length h) h' = h" and "fresh (length h) result" .
  from assms(2) f show "read h' locations = read h locations" by (rule read_frame)
  from shuffle_st_refines [OF assms, of grow rnd shuffleDirs shuffleInDir] s
  show v: "shuffle srt rnd (read h locations) shuffleDirs shuffleInDir = Inr (read h' result, rnd')"
    by simp
  then show "\<exists>k. rnd' = drop k rnd" by (rule shuffle_rest)
  show "rnd' = rnd" if "\<not> shuffleDirs \<and> \<not> shuffleInDir"
    using v that by (auto dest: shuffle_no_draw)
next
  assume "list_all well_formed (read h locations)"
  then have "\<forall>l\<in>set (read h locations). \<exists>k. Split l = Inr k" by (simp add: all_well_formed_iff)
  from shuffle_returns [OF assms(1) this, of rnd shuffleDirs shuffleInDir]
  obtain out rnd' where "shuffle srt rnd (read h locations) shuffleDirs shuffleInDir = Inr (out, rnd')"
    by blast
  with shuffle_st_refines [OF assms, of grow rnd shuffleDirs shuffleInDir]
  show "\<exists>result h' rnd'.
      shuffle_st srt grow rnd h locations shuffleDirs shuffleInDir = Inr (result, h', rnd')"
    by (cases "shuffle_st srt grow rnd h locations shuffleDirs shuffleInDir") auto
qed

theorem shuffle_st_effects_witness:
  "valid [[''x'', ''file:///b/2'', ''file:///a/1'', ''file:///b/1'']]
     \<lparr>ptr = 0, off = 1, len = 3, cap = 3\<rparr> \<and>
   shuffle_st insertionSort (\<lambda>c n. 2 * c) [1, 0, 3]
     [[''x'', ''file:///b/2'', ''file:///a/1'', ''file:///b/1'']]
     \<lparr>ptr = 0, off = 1, len = 3, cap = 3\<rparr> True True =
     Inr (\<lparr>ptr = 7, off = 0, len = 3, cap = 4\<rparr>,
          [[''x'', ''file:///b/2'', ''file:///a/1'', ''file:///b/1''],
           [''/b/''], [''file:///b/2''], [''/b/'', ''/a/''], [''file:///a/1''],
           [''file:///b/1'', ''file:///b/2''],
           [''file:///b/1'', ''file:///b/2''],
           [''file:///b/1'', ''file:///b/2'', ''file:///a/1'', []]],
          [3]) \<and>
   shuffle insertionSort [1, 0, 3] [''file:///b/2'', ''file:///a/1'', ''file:///b/1''] True True =
     Inr ([''file:///b/1'', ''file:///b/2'', ''file:///a/1''], [3]) \<and>
   fresh 1 \<lparr>ptr = 7, off = 0, len = 3, cap = 4\<rparr>"
proof -
  let ?h = "[[''x'', ''file:///b/2'', ''file:///a/1'', ''file:///b/1'']]"
  let ?l = "\<lparr>ptr = 0, off = 1, len = 3, cap = 3\<rparr>"
  let ?r = "\<lparr>ptr = 7, off = 0, len = 3, cap = 4\<rparr>"
  let ?h' = "[[''x'', ''file:///b/2'', ''file:///a/1'', ''file:///b/1''],
           [''/b/''], [''file:///b/2''], [''/b/'', ''/a/''], [''file:///a/1''],
           [''file:///b/1'', ''file:///b/2''],
           [''file:///b/1'', ''file:///b/2''],
           [''file:///b/1'', ''file:///b/2'', ''file:///a/1'', []]]"
  have v: "valid ?h ?l" by (simp add: valid_def)
  have s: "shuffle_st insertionSort (\<lambda>c n. 2 * c) [1, 0, 3] ?h ?l True True = Inr (?r, ?h', [3])"
    by code_simp
  have r: "read ?h ?l = [''file:///b/2'', ''file:///a/1'', ''file:///b/1'']"
    "read ?h' ?r = [''file:///b/1'', ''file:///b/2'', ''file:///a/1'']"
    by (simp_all add: read_def)
  from shuffle_st_effects [OF insertionSort_sorts v, of "\<lambda>c n. 2 * c" "[1, 0, 3]" True True] s
  have "shuffle insertionSort [1, 0, 3] (read ?h ?l) True True = Inr (read ?h' ?r, [3])"
    and "fresh (length ?h) ?r"
    by blast+
  with v s r show ?thesis by simp
qed

end
